theory Spec2Isabelle
  imports Main
begin

section \<open>Rule 303 / 304 scanner: data model\<close>

text \<open>
  The scanner of \<^verbatim>\<open>src/app/app.py\<close> reads a \<^verbatim>\<open>Unit\<close> (a block of ABAP source
  with its position) and reports every \<^verbatim>\<open>SET EXTENDED CHECK\<close> and every
  \<^verbatim>\<open>BREAK-POINT\<close> statement as a \<^verbatim>\<open>Finding\<close>.

  A Python \<^verbatim>\<open>str\<close> is a sequence of code points. Here a text is a \<^typ>\<open>string\<close>, one
  \<^typ>\<open>char\<close> for each code point, so the development covers the texts whose code
  points are below 256 (ASCII and Latin-1); the character classes below are those of
  Python's \<^verbatim>\<open>re\<close> module on that range. \<^verbatim>\<open>Optional[...]\<close> fields are options.
\<close>

record Finding =
  prog_name :: "string option"
  incl_name :: "string option"
  types :: "string option"
  blockname :: "string option"
  starting_line :: "int option"
  ending_line :: "int option"
  issues_type :: "string option"
  severity :: "string option"
  message :: "string option"
  suggestion :: "string option"
  snippet :: "string option"

record Unit =
  pgm_name :: string
  inc_name :: string
  type :: string
  name :: "string option"
  class_implementation :: "string option"
  start_line :: int
  end_line :: int
  code :: "string option"
  findings :: "Finding list option"

section \<open>Characters\<close>

definition NL :: char where
  "NL = CHR 0x0A"

definition CR :: char where
  "CR = CHR 0x0D"

definition BACKSLASH :: char where
  "BACKSLASH = CHR 0x5C"

text \<open>\<^verbatim>\<open>\w\<close> of a \<^verbatim>\<open>str\<close> pattern: alphanumeric or underscore.\<close>

definition is_word :: "char \<Rightarrow> bool" where
  "is_word c =
     (let n = (of_char c :: nat) in
        (48 \<le> n \<and> n \<le> 57) \<or> (65 \<le> n \<and> n \<le> 90) \<or> n = 95 \<or> (97 \<le> n \<and> n \<le> 122)
        \<or> n = 170 \<or> n = 178 \<or> n = 179 \<or> n = 181 \<or> n = 185 \<or> n = 186
        \<or> (188 \<le> n \<and> n \<le> 190) \<or> (192 \<le> n \<and> n \<le> 214)
        \<or> (216 \<le> n \<and> n \<le> 246) \<or> 248 \<le> n)"

text \<open>\<^verbatim>\<open>\s\<close> of a \<^verbatim>\<open>str\<close> pattern: Unicode white space.\<close>

definition is_space :: "char \<Rightarrow> bool" where
  "is_space c =
     (let n = (of_char c :: nat) in
        (9 \<le> n \<and> n \<le> 13) \<or> (28 \<le> n \<and> n \<le> 32) \<or> n = 133 \<or> n = 160)"

text \<open>The simple lower-case mapping that \<^verbatim>\<open>re.IGNORECASE\<close> compares with.\<close>

definition lower_code :: "char \<Rightarrow> nat" where
  "lower_code c =
     (let n = (of_char c :: nat) in
        if (65 \<le> n \<and> n \<le> 90) \<or> (192 \<le> n \<and> n \<le> 214) \<or> (216 \<le> n \<and> n \<le> 222)
        then n + 32 else n)"

definition tolower :: "char \<Rightarrow> char" where
  "tolower c = char_of (lower_code c)"

section \<open>The two patterns and the matching engine\<close>

text \<open>
  The fragment of regular expressions the two patterns are written in: one character
  (a literal compared without case, \<^verbatim>\<open>\s\<close>, \<^verbatim>\<open>\w\<close>), the assertion \<^verbatim>\<open>\b\<close>,
  sequence, the greedy \<^verbatim>\<open>+\<close> of one character, and the greedy \<^verbatim>\<open>(?:...)?\<close>.
\<close>

datatype atom = Lit char | Space | Wordc

datatype rx = Atom atom | Boundary | Seq rx rx | Plus atom | Opt rx

fun atom_ok :: "atom \<Rightarrow> char \<Rightarrow> bool" where
  "atom_ok (Lit l) c = (tolower c = tolower l)"
| "atom_ok Space c = is_space c"
| "atom_ok Wordc c = is_word c"

text \<open>\<^verbatim>\<open>\b\<close> holds at offset \<open>i\<close> when exactly one of the two neighbours is a word character.\<close>

definition at_boundary :: "string \<Rightarrow> nat \<Rightarrow> bool" where
  "at_boundary s i =
     ((0 < i \<and> i \<le> length s \<and> is_word (s ! (i - 1))) \<noteq> (i < length s \<and> is_word (s ! i)))"

text \<open>
  Backtracking in continuation style: \<open>k\<close> is what remains of the pattern, given the
  offset reached, and gives the end of the match. A greedy repetition first tries one
  more character and falls back to the continuation when that fails.
\<close>

function plus_loop :: "atom \<Rightarrow> string \<Rightarrow> nat \<Rightarrow> (nat \<Rightarrow> nat option) \<Rightarrow> nat option" where
  "plus_loop a s i k =
     (if i < length s \<and> atom_ok a (s ! i)
      then (case plus_loop a s (i + 1) k of Some e \<Rightarrow> Some e | None \<Rightarrow> k (i + 1))
      else None)"
  by pat_completeness auto
termination
  by (relation "measure (\<lambda>(a, s, i, k). length s - i)") auto

declare plus_loop.simps [simp del]

primrec bt :: "rx \<Rightarrow> string \<Rightarrow> nat \<Rightarrow> (nat \<Rightarrow> nat option) \<Rightarrow> nat option" where
  "bt (Atom a) s i k = (if i < length s \<and> atom_ok a (s ! i) then k (i + 1) else None)"
| "bt Boundary s i k = (if at_boundary s i then k i else None)"
| "bt (Seq p q) s i k = bt p s i (\<lambda>j. bt q s j k)"
| "bt (Plus a) s i k = plus_loop a s i k"
| "bt (Opt p) s i k = (case bt p s i k of Some e \<Rightarrow> Some e | None \<Rightarrow> k i)"

text \<open>\<^verbatim>\<open>pattern.match(s, i)\<close>: the end of the match that starts at \<open>i\<close>, if there is one.\<close>

definition match_at :: "rx \<Rightarrow> string \<Rightarrow> nat \<Rightarrow> nat option" where
  "match_at p s i = bt p s i Some"

text \<open>
  \<^verbatim>\<open>pattern.finditer(s)\<close>: the spans \<open>(start, end)\<close> of the matches from left to right,
  the search resuming where the last match ended. (Neither pattern matches the empty
  string; after an empty match the search would move on by one character.)
\<close>

function finditer_from :: "rx \<Rightarrow> string \<Rightarrow> nat \<Rightarrow> (nat \<times> nat) list" where
  "finditer_from p s i =
     (if length s < i then []
      else (case match_at p s i of
              None \<Rightarrow> finditer_from p s (i + 1)
            | Some e \<Rightarrow> (i, e) # finditer_from p s (if i < e then e else i + 1)))"
  by pat_completeness auto
termination
  by (relation "measure (\<lambda>(p, s, i). length s + 1 - i)") auto

declare finditer_from.simps [simp del]

definition finditer :: "rx \<Rightarrow> string \<Rightarrow> (nat \<times> nat) list" where
  "finditer p s = finditer_from p s 0"

text \<open>A run of literals followed by the rest of the pattern.\<close>

fun lits :: "string \<Rightarrow> rx \<Rightarrow> rx" where
  "lits [] r = r"
| "lits (c # cs) r = Seq (Atom (Lit c)) (lits cs r)"

text \<open>\<^verbatim>\<open>r"\bSET\s+EXTENDED\s+CHECK\b"\<close> with \<^verbatim>\<open>re.IGNORECASE\<close>.\<close>

definition SET_EXT_CHECK_RE :: rx where
  "SET_EXT_CHECK_RE =
     Seq Boundary (lits ''SET'' (Seq (Plus Space) (lits ''EXTENDED''
       (Seq (Plus Space) (lits ''CHECK'' Boundary)))))"

text \<open>\<^verbatim>\<open>r"\bBREAK-POINT\b(?:\s+\w+)?"\<close> with \<^verbatim>\<open>re.IGNORECASE\<close>.\<close>

definition BREAKPOINT_RE :: rx where
  "BREAKPOINT_RE =
     Seq Boundary (lits ''BREAK-POINT'' (Seq Boundary (Opt (Seq (Plus Space) (Plus Wordc)))))"

section \<open>Helpers\<close>

text \<open>\<^verbatim>\<open>text.rfind("\n", 0, pos)\<close>: the last line feed before \<open>pos\<close>; \<open>None\<close> is Python's -1.\<close>

fun rfind_nl :: "string \<Rightarrow> nat \<Rightarrow> nat option" where
  "rfind_nl text 0 = None"
| "rfind_nl text (Suc j) =
     (if j < length text \<and> text ! j = NL then Some j else rfind_nl text j)"

text \<open>\<^verbatim>\<open>text.find("\n", pos)\<close>: the first line feed at or after \<open>pos\<close>.\<close>

function find_nl :: "string \<Rightarrow> nat \<Rightarrow> nat option" where
  "find_nl text pos =
     (if length text \<le> pos then None
      else if text ! pos = NL then Some pos else find_nl text (pos + 1))"
  by pat_completeness auto
termination
  by (relation "measure (\<lambda>(text, pos). length text - pos)") auto

declare find_nl.simps [simp del]

text \<open>\<^verbatim>\<open>text[a:b]\<close> for offsets that are not negative.\<close>

definition slice :: "string \<Rightarrow> nat \<Rightarrow> nat \<Rightarrow> string" where
  "slice text a b = take (b - a) (drop a text)"

definition extract_line :: "string \<Rightarrow> nat \<Rightarrow> string" where
  "extract_line text pos =
     (let line_start = (case rfind_nl text pos of None \<Rightarrow> 0 | Some j \<Rightarrow> j + 1);
          line_end = (case find_nl text pos of None \<Rightarrow> length text | Some j \<Rightarrow> j)
      in slice text line_start line_end)"

text \<open>\<^verbatim>\<open>src.count("\n", 0, start)\<close>.\<close>

definition count_nl :: "string \<Rightarrow> nat \<Rightarrow> nat" where
  "count_nl src start = length (filter (\<lambda>c. c = NL) (take start src))"

text \<open>\<^verbatim>\<open>.replace("\n", "\\n")\<close>: a line feed becomes a backslash and the letter n.\<close>

fun escape_nl :: "string \<Rightarrow> string" where
  "escape_nl [] = []"
| "escape_nl (c # cs) = (if c = NL then [BACKSLASH, CHR ''n''] else [c]) @ escape_nl cs"

definition make_finding ::
    "Unit \<Rightarrow> string \<Rightarrow> nat \<Rightarrow> nat \<Rightarrow> string \<Rightarrow> string \<Rightarrow> string \<Rightarrow> Finding" where
  "make_finding unit src start end issue msg sug =
     (let line_in_block = int (count_nl src start) + 1;
          abs_start = start_line unit + line_in_block;
          abs_end = abs_start;
          snip = escape_nl (extract_line src start)
      in \<lparr> prog_name = Some (pgm_name unit),
           incl_name = Some (inc_name unit),
           types = Some (type unit),
           blockname = name unit,
           starting_line = Some abs_start,
           ending_line = Some abs_end,
           issues_type = Some issue,
           severity = Some ''error'',
           message = Some msg,
           suggestion = Some sug,
           snippet = Some snip \<rparr>)"

section \<open>Core scan logic\<close>

text \<open>The two loops of \<^verbatim>\<open>scan_unit\<close>: each match appends one finding to \<open>fnds\<close>.\<close>

definition rule303_loop :: "Unit \<Rightarrow> string \<Rightarrow> Finding list \<Rightarrow> Finding list" where
  "rule303_loop unit src fnds =
     fold (\<lambda>(ms, me) acc. acc @ [make_finding unit src ms me ''Rule303_SetExtendedCheck''
             ''Obsolete SET EXTENDED CHECK statement detected.''
             ''Remove the SET EXTENDED CHECK statement entirely.''])
          (finditer SET_EXT_CHECK_RE src) fnds"

definition rule304_loop :: "Unit \<Rightarrow> string \<Rightarrow> Finding list \<Rightarrow> Finding list" where
  "rule304_loop unit src fnds =
     fold (\<lambda>(ms, me) acc. acc @ [make_finding unit src ms me ''Rule304_BreakPointUsage''
             ''BREAK-POINT is not allowed in ABAP Cloud / Key User scenarios.''
             ''Remove or comment out the BREAK-POINT statement.''])
          (finditer BREAKPOINT_RE src) fnds"

text \<open>\<^verbatim>\<open>unit.code or ""\<close>: an absent text and an empty one are both the empty text.\<close>

definition code_or_empty :: "Unit \<Rightarrow> string" where
  "code_or_empty unit = (case code unit of None \<Rightarrow> [] | Some c \<Rightarrow> c)"

text \<open>
  The value \<^verbatim>\<open>scan_unit\<close> returns: a copy of the unit (\<^verbatim>\<open>Unit(**unit.model_dump())\<close>)
  whose \<^verbatim>\<open>findings\<close> is \<^verbatim>\<open>fnds if fnds else None\<close>.
\<close>

definition scan_unit :: "Unit \<Rightarrow> Unit" where
  "scan_unit unit =
     (let src = code_or_empty unit;
          fnds = rule304_loop unit src (rule303_loop unit src []);
          out = unit
      in out\<lparr> findings := (if fnds \<noteq> [] then Some fnds else None) \<rparr>)"

text \<open>
  The same function on a store of \<^verbatim>\<open>Unit\<close> objects, an address being an index: the
  copy is a new object, and the assignment \<^verbatim>\<open>out.findings = ...\<close> writes to it.
  A dangling address gives \<open>None\<close>.
\<close>

definition scan_unit_obj :: "Unit list \<Rightarrow> nat \<Rightarrow> (nat \<times> Unit list) option" where
  "scan_unit_obj heap a =
     (if a < length heap then
        (let unit = heap ! a;
             src = code_or_empty unit;
             fnds = rule304_loop unit src (rule303_loop unit src []);
             out = length heap;
             heap1 = heap @ [unit];
             heap2 = heap1[out := (heap1 ! out)\<lparr> findings := (if fnds \<noteq> [] then Some fnds else None) \<rparr>]
         in Some (out, heap2))
      else None)"

section \<open>Endpoints\<close>

text \<open>Python's truth value of an \<^verbatim>\<open>Optional[List[Finding]]\<close>.\<close>

definition truthy :: "Finding list option \<Rightarrow> bool" where
  "truthy fs = (case fs of None \<Rightarrow> False | Some l \<Rightarrow> l \<noteq> [])"

definition scan_array :: "Unit list \<Rightarrow> Unit list" where
  "scan_array units =
     fold (\<lambda>u results. let scanned = scan_unit u
                        in if truthy (findings scanned) then results @ [scanned] else results)
          units []"

definition scan_single :: "Unit \<Rightarrow> Unit" where
  "scan_single unit = scan_unit unit"

section \<open>What the texts of the specification mean\<close>

text \<open>The word \<open>w\<close> stands at offset \<open>i\<close> of \<open>s\<close>, in any letter case.\<close>

definition ci_match :: "string \<Rightarrow> string \<Rightarrow> nat \<Rightarrow> bool" where
  "ci_match w s i = (map tolower (take (length w) (drop i s)) = map tolower w)"

text \<open>
  The number of characters with property \<open>P\<close> from offset \<open>i\<close> on, up to the first
  character without it; of white-space characters; of word characters.
\<close>

definition run :: "(char \<Rightarrow> bool) \<Rightarrow> string \<Rightarrow> nat \<Rightarrow> nat" where
  "run P s i = length (takeWhile P (drop i s))"

definition space_run :: "string \<Rightarrow> nat \<Rightarrow> nat" where
  "space_run s i = run is_space s i"

definition word_run :: "string \<Rightarrow> nat \<Rightarrow> nat" where
  "word_run s i = run is_word s i"

text \<open>
  The span from \<open>i\<close> to \<open>e\<close> is part of a longer identifier: a word character stands
  right before it or right after it.
\<close>

definition embedded :: "string \<Rightarrow> nat \<Rightarrow> nat \<Rightarrow> bool" where
  "embedded s i e = ((0 < i \<and> is_word (s ! (i - 1))) \<or> (e < length s \<and> is_word (s ! e)))"

text \<open>The keyword of rule 304 as a text, and as a word of its own.\<close>

definition kw304_text :: "string \<Rightarrow> nat \<Rightarrow> bool" where
  "kw304_text s p = ci_match ''BREAK-POINT'' s p"

definition kw304_at :: "string \<Rightarrow> nat \<Rightarrow> bool" where
  "kw304_at s p = (kw304_text s p \<and> \<not> embedded s p (p + 11))"

text \<open>White space and one word follow the keyword that stands at \<open>p\<close>.\<close>

definition trailing_token :: "string \<Rightarrow> nat \<Rightarrow> bool" where
  "trailing_token s p =
     (0 < space_run s (p + 11) \<and> 0 < word_run s (p + 11 + space_run s (p + 11)))"

text \<open>Where the statement ends: after the trailing word when there is one.\<close>

definition kw304_end :: "string \<Rightarrow> nat \<Rightarrow> nat" where
  "kw304_end s p =
     (if trailing_token s p
      then p + 11 + space_run s (p + 11) + word_run s (p + 11 + space_run s (p + 11))
      else p + 11)"

text \<open>
  The phrase of rule 303 as a text: the three words, white space between them. Its
  second word starts at \<open>phrase303_mid\<close> and its third at \<open>phrase303_last\<close>.
\<close>

definition phrase303_mid :: "string \<Rightarrow> nat \<Rightarrow> nat" where
  "phrase303_mid s p = p + 3 + space_run s (p + 3)"

definition phrase303_last :: "string \<Rightarrow> nat \<Rightarrow> nat" where
  "phrase303_last s p = phrase303_mid s p + 8 + space_run s (phrase303_mid s p + 8)"

definition phrase303_text :: "string \<Rightarrow> nat \<Rightarrow> bool" where
  "phrase303_text s p =
     (ci_match ''SET'' s p \<and> 0 < space_run s (p + 3)
      \<and> ci_match ''EXTENDED'' s (phrase303_mid s p) \<and> 0 < space_run s (phrase303_mid s p + 8)
      \<and> ci_match ''CHECK'' s (phrase303_last s p))"

definition phrase303_at :: "string \<Rightarrow> nat \<Rightarrow> bool" where
  "phrase303_at s p = (phrase303_text s p \<and> \<not> embedded s p (phrase303_last s p + 5))"

text \<open>The offsets, from \<open>i\<close> on, of the characters of a text that are the letter \<open>c\<close>.\<close>

fun letter_offsets :: "char \<Rightarrow> string \<Rightarrow> nat \<Rightarrow> nat list" where
  "letter_offsets c [] i = []"
| "letter_offsets c (x # xs) i =
     (if tolower x = tolower c then [i] else []) @ letter_offsets c xs (Suc i)"

text \<open>The lines of a text, as \<^verbatim>\<open>text.split("\n")\<close> gives them.\<close>

fun split_nl :: "string \<Rightarrow> string list" where
  "split_nl [] = [[]]"
| "split_nl (c # cs) =
     (if c = NL then [] # split_nl cs
      else (case split_nl cs of [] \<Rightarrow> [[c]] | l # ls \<Rightarrow> (c # l) # ls))"

text \<open>
  Offset \<open>p\<close> lies on line \<open>k\<close> (counted from 1) of the lines \<open>ls\<close>: a line owns the
  offsets of its characters and that of the line feed that ends it.
\<close>

fun on_line :: "string list \<Rightarrow> nat \<Rightarrow> nat \<Rightarrow> bool" where
  "on_line [] p k = False"
| "on_line (l # ls) p k =
     (if p \<le> length l then k = 1 else 1 < k \<and> on_line ls (p - length l - 1) (k - 1))"

text \<open>
  The physical line of offset \<open>a\<close> in a text: the text is \<open>pre\<close>, the line, and
  \<open>post\<close>, where the line has no line feed, \<open>pre\<close> is empty or ends with a line feed,
  \<open>post\<close> is empty or starts with one, and \<open>a\<close> lies in the line or right after it.
\<close>

definition physical_line :: "string \<Rightarrow> nat \<Rightarrow> string \<Rightarrow> string \<Rightarrow> string \<Rightarrow> bool" where
  "physical_line src a pre line post =
     (src = pre @ line @ post \<and> NL \<notin> set line
      \<and> (pre = [] \<or> last pre = NL) \<and> (post = [] \<or> hd post = NL)
      \<and> length pre \<le> a \<and> a \<le> length pre + length line)"

text \<open>The findings of a unit, none when the field is absent, and those of one rule.\<close>

definition findings_of :: "Unit \<Rightarrow> Finding list" where
  "findings_of u = (case findings u of None \<Rightarrow> [] | Some fs \<Rightarrow> fs)"

definition of_rule :: "string \<Rightarrow> Finding list \<Rightarrow> Finding list" where
  "of_rule r fs = filter (\<lambda>f. issues_type f = Some r) fs"

text \<open>The finding that the loop of each rule appends for one match.\<close>

definition mk303 :: "Unit \<Rightarrow> string \<Rightarrow> nat \<times> nat \<Rightarrow> Finding" where
  "mk303 unit src = (\<lambda>(ms, me). make_finding unit src ms me ''Rule303_SetExtendedCheck''
             ''Obsolete SET EXTENDED CHECK statement detected.''
             ''Remove the SET EXTENDED CHECK statement entirely.'')"

definition mk304 :: "Unit \<Rightarrow> string \<Rightarrow> nat \<times> nat \<Rightarrow> Finding" where
  "mk304 unit src = (\<lambda>(ms, me). make_finding unit src ms me ''Rule304_BreakPointUsage''
             ''BREAK-POINT is not allowed in ABAP Cloud / Key User scenarios.''
             ''Remove or comment out the BREAK-POINT statement.'')"

text \<open>The unit of the examples: a text at line 100 of its program.\<close>

definition unit_of :: "string \<Rightarrow> Unit" where
  "unit_of src =
     \<lparr> pgm_name = ''ZPROG'', inc_name = ''ZINCL'', type = ''PROG'', name = Some ''MAIN'',
       class_implementation = None, start_line = 100, end_line = 0,
       code = Some src, findings = None \<rparr>"

section \<open>The matching engine on the two patterns\<close>

lemma ci_match_Nil: "ci_match [] s i"
  by (simp add: ci_match_def)

lemma ci_match_Cons:
  "ci_match (c # cs) s i = (i < length s \<and> tolower (s ! i) = tolower c \<and> ci_match cs s (Suc i))"
proof (cases "i < length s")
  case True
  then have "drop i s = s ! i # drop (Suc i) s"
    by (simp add: Cons_nth_drop_Suc)
  with True show ?thesis
    by (simp add: ci_match_def)
next
  case False
  then show ?thesis
    by (simp add: ci_match_def)
qed

lemma bt_lits: "bt (lits w r) s i k = (if ci_match w s i then bt r s (i + length w) k else None)"
  by (induction w arbitrary: i) (simp_all add: ci_match_Nil ci_match_Cons)

lemma run_step: "i < length s \<Longrightarrow> P (s ! i) \<Longrightarrow> run P s i = Suc (run P s (Suc i))"
  by (simp add: run_def Cons_nth_drop_Suc [symmetric])

lemma run_stop: "\<not> (i < length s \<and> P (s ! i)) \<Longrightarrow> run P s i = 0"
  by (cases "i < length s") (simp_all add: run_def Cons_nth_drop_Suc [symmetric])

lemma run_inside: "i \<le> j \<Longrightarrow> j < i + run P s i \<Longrightarrow> j < length s \<and> P (s ! j)"
proof -
  assume a: "i \<le> j" "j < i + run P s i"
  let ?t = "takeWhile P (drop i s)"
  have len: "j - i < length ?t" using a by (simp add: run_def)
  have "length ?t \<le> length (drop i s)" by (rule length_takeWhile_le)
  with len a have jl: "j < length s" by simp
  have "?t ! (j - i) = drop i s ! (j - i)" using len by (rule takeWhile_nth)
  also have "\<dots> = s ! j" using a jl by simp
  finally have "s ! j \<in> set ?t" using len nth_mem by metis
  then have "P (s ! j)" by (rule set_takeWhileD [THEN conjunct2])
  with jl show ?thesis by simp
qed

lemma plus_loop_skip:
  "(\<And>j. i < j \<Longrightarrow> j < i + run (atom_ok a) s i \<Longrightarrow> k j = None) \<Longrightarrow>
   plus_loop a s i k = (if run (atom_ok a) s i = 0 then None else k (i + run (atom_ok a) s i))"
proof (induction a s i k rule: plus_loop.induct)
  case (1 a s i k)
  show ?case
  proof (cases "i < length s \<and> atom_ok a (s ! i)")
    case False
    then have "run (atom_ok a) s i = 0"
      by (rule run_stop)
    with False show ?thesis
      by (auto simp add: plus_loop.simps [of a s i])
  next
    case True
    then have r: "run (atom_ok a) s i = Suc (run (atom_ok a) s (Suc i))"
      by (simp add: run_step)
    have ih: "plus_loop a s (i + 1) k =
        (if run (atom_ok a) s (i + 1) = 0 then None else k (i + 1 + run (atom_ok a) s (i + 1)))"
      using True by (intro "1.IH") (auto simp: r intro: "1.prems")
    show ?thesis
    proof (cases "run (atom_ok a) s (Suc i) = 0")
      case True
      with \<open>i < length s \<and> atom_ok a (s ! i)\<close> ih r show ?thesis
        by (simp add: plus_loop.simps [of a s i])
    next
      case False
      then have "k (i + 1) = None"
        by (intro "1.prems") (simp_all add: r)
      with False \<open>i < length s \<and> atom_ok a (s ! i)\<close> ih r show ?thesis
        by (simp add: plus_loop.simps [of a s i] split: option.split)
    qed
  qed
qed


lemma plus_loop_greedy:
  "plus_loop a s i Some = (if run (atom_ok a) s i = 0 then None else Some (i + run (atom_ok a) s i))"
proof (induction a s i "Some :: nat \<Rightarrow> nat option" rule: plus_loop.induct)
  case (1 a s i)
  show ?case
  proof (cases "i < length s \<and> atom_ok a (s ! i)")
    case False
    then have "run (atom_ok a) s i = 0"
      by (rule run_stop)
    with False show ?thesis
      by (auto simp add: plus_loop.simps [of a s i])
  next
    case True
    then have r: "run (atom_ok a) s i = Suc (run (atom_ok a) s (Suc i))"
      by (simp add: run_step)
    from True "1.hyps" r show ?thesis
      by (simp add: plus_loop.simps [of a s i])
  qed
qed

lemma atom_ok_Space: "atom_ok Space = is_space"
  by (rule ext) simp

lemma atom_ok_Wordc: "atom_ok Wordc = is_word"
  by (rule ext) simp

lemma space_run_run: "space_run s i = run is_space s i"
  by (simp add: space_run_def)

lemma word_run_run: "word_run s i = run is_word s i"
  by (simp add: word_run_def)

lemma lower_code_less: "lower_code c < 256"
proof -
  have "(of_char c :: nat) < 256" by simp
  then show ?thesis
    by (auto simp: lower_code_def Let_def)
qed

lemma of_char_tolower: "(of_char (tolower c) :: nat) = lower_code c"
  using lower_code_less [of c] by (simp add: tolower_def)

lemma tolower_eq: "(tolower a = tolower b) = (lower_code a = lower_code b)"
proof
  assume "tolower a = tolower b"
  then have "(of_char (tolower a) :: nat) = of_char (tolower b)" by (simp only:)
  then show "lower_code a = lower_code b" by (simp only: of_char_tolower)
next
  assume "lower_code a = lower_code b"
  then show "tolower a = tolower b" by (simp only: tolower_def)
qed

lemma tolower_letter:
  assumes "tolower c = tolower l" and "65 \<le> (of_char l :: nat) \<and> (of_char l :: nat) \<le> 90"
  shows "is_word c \<and> \<not> is_space c"
proof -
  let ?n = "of_char c :: nat"
  let ?m = "of_char l :: nat"
  have l: "lower_code l = ?m + 32"
    using assms(2) by (simp add: lower_code_def Let_def)
  have e: "lower_code c = lower_code l"
    using assms(1) by (simp only: tolower_eq)
  show ?thesis
  proof (cases "(65 \<le> ?n \<and> ?n \<le> 90) \<or> (192 \<le> ?n \<and> ?n \<le> 214) \<or> (216 \<le> ?n \<and> ?n \<le> 222)")
    case True
    then have "lower_code c = ?n + 32"
      by (simp add: lower_code_def Let_def)
    with l e have "?n + 32 = ?m + 32" by (simp only:)
    then have "?n = ?m" by arith
    with assms(2) have "65 \<le> ?n \<and> ?n \<le> 90" by (simp only:)
    then show ?thesis
      by (simp add: is_word_def is_space_def Let_def)
  next
    case False
    then have "lower_code c = ?n"
      unfolding lower_code_def Let_def by (simp only: if_False)
    with l e have "?n = ?m + 32" by (simp only:)
    with assms(2) have "97 \<le> ?n \<and> ?n \<le> 122" by arith
    then show ?thesis
      by (simp add: is_word_def is_space_def Let_def)
  qed
qed

lemma is_space_not_word: "is_space c \<Longrightarrow> \<not> is_word c"
  by (auto simp: is_space_def is_word_def Let_def)

lemma ci_match_length: "ci_match w s i \<Longrightarrow> w \<noteq> [] \<Longrightarrow> i + length w \<le> length s"
proof -
  assume "ci_match w s i" and ne: "w \<noteq> []"
  then have "length (map tolower (take (length w) (drop i s))) = length (map tolower w)"
    by (simp only: ci_match_def)
  with ne show ?thesis by (cases w) auto
qed

lemma ci_match_nth: "ci_match w s i \<Longrightarrow> j < length w \<Longrightarrow> tolower (s ! (i + j)) = tolower (w ! j)"
proof -
  assume m: "ci_match w s i" and j: "j < length w"
  from j have "w \<noteq> []" by auto
  with m have le: "i + length w \<le> length s" by (rule ci_match_length)
  from m have "map tolower (take (length w) (drop i s)) ! j = map tolower w ! j"
    by (simp only: ci_match_def)
  with j le show ?thesis by simp
qed


lemma boundary_left:
  "i < length s \<Longrightarrow> is_word (s ! i) \<Longrightarrow> at_boundary s i = (\<not> (0 < i \<and> is_word (s ! (i - 1))))"
  by (auto simp: at_boundary_def)

lemma boundary_right:
  "0 < e \<Longrightarrow> e \<le> length s \<Longrightarrow> is_word (s ! (e - 1)) \<Longrightarrow>
   at_boundary s e = (\<not> (e < length s \<and> is_word (s ! e)))"
  by (auto simp: at_boundary_def)

lemma plus_space_lit:
  assumes c: "65 \<le> (of_char c :: nat) \<and> (of_char c :: nat) \<le> 90"
  shows "plus_loop Space s i (\<lambda>j. if ci_match (c # cs) s j then X j else None) =
     (if space_run s i = 0 then None
      else if ci_match (c # cs) s (i + space_run s i) then X (i + space_run s i) else None)"
proof -
  have "\<not> ci_match (c # cs) s j" if "i < j" and "j < i + run (atom_ok Space) s i" for j
  proof
    assume "ci_match (c # cs) s j"
    then have "tolower (s ! j) = tolower c"
      by (simp add: ci_match_Cons)
    with c have "\<not> is_space (s ! j)"
      using tolower_letter by blast
    moreover have "is_space (s ! j)"
      using run_inside [of i j "atom_ok Space" s] that by simp
    ultimately show False by simp
  qed
  then show ?thesis
    by (subst plus_loop_skip) (simp_all add: atom_ok_Space space_run_run)
qed

lemma plus_space_word:
  "plus_loop Space s i (\<lambda>j. plus_loop Wordc s j Some) =
     (if space_run s i = 0 \<or> word_run s (i + space_run s i) = 0 then None
      else Some (i + space_run s i + word_run s (i + space_run s i)))"
proof -
  have "plus_loop Wordc s j Some = None" if "i < j" and "j < i + run (atom_ok Space) s i" for j
  proof -
    have "is_space (s ! j)"
      using run_inside [of i j "atom_ok Space" s] that by simp
    then have "\<not> is_word (s ! j)"
      by (rule is_space_not_word)
    then have "run (atom_ok Wordc) s j = 0"
      by (intro run_stop) simp
    then show ?thesis
      by (simp add: plus_loop_greedy)
  qed
  then show ?thesis
    by (subst plus_loop_skip)
       (simp_all add: plus_loop_greedy atom_ok_Space atom_ok_Wordc space_run_run word_run_run)
qed

lemma kw304_boundaries:
  assumes "ci_match ''BREAK-POINT'' s i"
  shows "(at_boundary s i \<and> at_boundary s (i + 11)) = (\<not> embedded s i (i + 11))"
proof -
  from assms have len: "i + 11 \<le> length s"
    using ci_match_length [of "''BREAK-POINT''" s i] by simp
  have "tolower (s ! (i + 0)) = tolower (''BREAK-POINT'' ! 0)"
    using assms by (intro ci_match_nth) simp_all
  then have "tolower (s ! i) = tolower (CHR ''B'')" by simp
  then have first: "is_word (s ! i)"
    using tolower_letter [of "s ! i" "CHR ''B''"] by simp
  have "tolower (s ! (i + 10)) = tolower (''BREAK-POINT'' ! 10)"
    using assms by (intro ci_match_nth) simp_all
  then have "tolower (s ! (i + 10)) = tolower (CHR ''T'')" by simp
  then have last: "is_word (s ! (i + 10))"
    using tolower_letter [of "s ! (i + 10)" "CHR ''T''"] by simp
  have l: "at_boundary s i = (\<not> (0 < i \<and> is_word (s ! (i - 1))))"
    using len first by (intro boundary_left) simp_all
  have r: "at_boundary s (i + 11) = (\<not> (i + 11 < length s \<and> is_word (s ! (i + 11))))"
  proof (rule boundary_right)
    show "0 < i + 11" by simp
    show "i + 11 \<le> length s" by (rule len)
    have "i + 11 - 1 = i + 10" by simp
    with last show "is_word (s ! (i + 11 - 1))" by (simp only:)
  qed
  show ?thesis
    by (simp only: l r embedded_def) blast
qed

lemma match_304_unfold:
  "match_at BREAKPOINT_RE s i =
     (if at_boundary s i then
        if ci_match ''BREAK-POINT'' s i then
          if at_boundary s (i + 11) then
            (case plus_loop Space s (i + 11) (\<lambda>j. plus_loop Wordc s j Some) of
               Some e \<Rightarrow> Some e | None \<Rightarrow> Some (i + 11))
          else None
        else None
      else None)"
proof -
  have len: "length ''BREAK-POINT'' = 11" by simp
  show ?thesis
    by (simp only: match_at_def BREAKPOINT_RE_def bt.simps bt_lits len)
qed

lemma match_304:
  "match_at BREAKPOINT_RE s i = (if kw304_at s i then Some (kw304_end s i) else None)"
proof (cases "ci_match ''BREAK-POINT'' s i")
  case False
  then show ?thesis
    by (simp only: match_304_unfold kw304_at_def kw304_text_def) simp
next
  case True
  then have b: "(at_boundary s i \<and> at_boundary s (i + 11)) = (\<not> embedded s i (i + 11))"
    by (rule kw304_boundaries)
  show ?thesis
  proof (cases "embedded s i (i + 11)")
    case True
    with b have "\<not> (at_boundary s i \<and> at_boundary s (i + 11))" by simp
    moreover have "\<not> kw304_at s i" using True by (simp add: kw304_at_def)
    ultimately show ?thesis
      by (simp only: match_304_unfold) auto
  next
    case False
    with b have "at_boundary s i" "at_boundary s (i + 11)" by simp_all
    moreover have "kw304_at s i"
      using False \<open>ci_match ''BREAK-POINT'' s i\<close> by (simp add: kw304_at_def kw304_text_def)
    ultimately show ?thesis
      using \<open>ci_match ''BREAK-POINT'' s i\<close>
      by (simp only: match_304_unfold plus_space_word kw304_end_def trailing_token_def) auto
  qed
qed


lemma match_303_unfold:
  "match_at SET_EXT_CHECK_RE s i =
     (if at_boundary s i then
        if ci_match ''SET'' s i then
          plus_loop Space s (i + 3) (\<lambda>j.
            if ci_match ''EXTENDED'' s j then
              plus_loop Space s (j + 8) (\<lambda>j'.
                if ci_match ''CHECK'' s j' then
                  if at_boundary s (j' + 5) then Some (j' + 5) else None
                else None)
            else None)
        else None
      else None)"
proof -
  have len: "length ''SET'' = 3" "length ''EXTENDED'' = 8" "length ''CHECK'' = 5" by simp_all
  show ?thesis
    by (simp only: match_at_def SET_EXT_CHECK_RE_def bt.simps bt_lits len)
qed

lemma plus_space_check:
  "plus_loop Space s j (\<lambda>j'. if ci_match ''CHECK'' s j' then X j' else None) =
     (if space_run s j = 0 then None
      else if ci_match ''CHECK'' s (j + space_run s j) then X (j + space_run s j) else None)"
  by (rule plus_space_lit) simp

lemma plus_space_extended:
  "plus_loop Space s j (\<lambda>j'. if ci_match ''EXTENDED'' s j' then X j' else None) =
     (if space_run s j = 0 then None
      else if ci_match ''EXTENDED'' s (j + space_run s j) then X (j + space_run s j) else None)"
  by (rule plus_space_lit) simp

lemma match_303_text:
  "match_at SET_EXT_CHECK_RE s i =
     (if at_boundary s i \<and> phrase303_text s i \<and> at_boundary s (phrase303_last s i + 5)
      then Some (phrase303_last s i + 5) else None)"
  by (simp only: match_303_unfold plus_space_check plus_space_extended
        phrase303_text_def phrase303_mid_def phrase303_last_def) auto

lemma phrase303_boundaries:
  assumes "phrase303_text s i"
  shows "(at_boundary s i \<and> at_boundary s (phrase303_last s i + 5)) =
         (\<not> embedded s i (phrase303_last s i + 5))"
proof -
  let ?e = "phrase303_last s i"
  from assms have m1: "ci_match ''SET'' s i" and m3: "ci_match ''CHECK'' s ?e"
    by (simp_all add: phrase303_text_def)
  from m1 have len1: "i + 3 \<le> length s"
    using ci_match_length [of "''SET''" s i] by simp
  from m3 have len3: "?e + 5 \<le> length s"
    using ci_match_length [of "''CHECK''" s ?e] by simp
  have "tolower (s ! (i + 0)) = tolower (''SET'' ! 0)"
    using m1 by (intro ci_match_nth) simp_all
  then have "tolower (s ! i) = tolower (CHR ''S'')" by simp
  then have first: "is_word (s ! i)"
    using tolower_letter [of "s ! i" "CHR ''S''"] by simp
  have "tolower (s ! (?e + 4)) = tolower (''CHECK'' ! 4)"
    using m3 by (intro ci_match_nth) simp_all
  then have "tolower (s ! (?e + 4)) = tolower (CHR ''K'')" by simp
  then have last: "is_word (s ! (?e + 4))"
    using tolower_letter [of "s ! (?e + 4)" "CHR ''K''"] by simp
  have l: "at_boundary s i = (\<not> (0 < i \<and> is_word (s ! (i - 1))))"
    using len1 first by (intro boundary_left) simp_all
  have r: "at_boundary s (?e + 5) = (\<not> (?e + 5 < length s \<and> is_word (s ! (?e + 5))))"
  proof (rule boundary_right)
    show "0 < ?e + 5" by simp
    show "?e + 5 \<le> length s" by (rule len3)
    have "?e + 5 - 1 = ?e + 4" by simp
    with last show "is_word (s ! (?e + 5 - 1))" by (simp only:)
  qed
  show ?thesis
    by (simp only: l r embedded_def) blast
qed

lemma match_303:
  "match_at SET_EXT_CHECK_RE s i =
     (if phrase303_at s i then Some (phrase303_last s i + 5) else None)"
proof (cases "phrase303_text s i")
  case False
  then show ?thesis
    by (simp add: match_303_text phrase303_at_def)
next
  case True
  then have "(at_boundary s i \<and> at_boundary s (phrase303_last s i + 5)) =
         (\<not> embedded s i (phrase303_last s i + 5))"
    by (rule phrase303_boundaries)
  with True show ?thesis
    by (simp add: match_303_text phrase303_at_def)
qed

section \<open>The scan of a text and of a unit\<close>

lemma finditer_from_none:
  "(\<And>j. i \<le> j \<Longrightarrow> j \<le> length s \<Longrightarrow> match_at p s j = None) \<Longrightarrow> finditer_from p s i = []"
proof (induction p s i rule: finditer_from.induct)
  case (1 p s i)
  show ?case
  proof (cases "length s < i")
    case True
    then show ?thesis by (simp add: finditer_from.simps [of p s i])
  next
    case False
    then have m: "match_at p s i = None" by (intro "1.prems") simp_all
    have "finditer_from p s (i + 1) = []"
      using False m by (intro "1.IH"(1)) (simp_all add: "1.prems")
    with False m show ?thesis by (simp add: finditer_from.simps [of p s i])
  qed
qed

lemma finditer_from_single:
  "i \<le> q \<Longrightarrow> q \<le> length s \<Longrightarrow> match_at p s q = Some e \<Longrightarrow>
   (\<And>j. j \<le> length s \<Longrightarrow> j \<noteq> q \<Longrightarrow> match_at p s j = None) \<Longrightarrow>
   finditer_from p s i = [(q, e)]"
proof (induction p s i rule: finditer_from.induct)
  case (1 p s i)
  from "1.prems"(1,2) have il: "\<not> length s < i" by simp
  show ?case
  proof (cases "i = q")
    case True
    have "finditer_from p s (if q < e then e else q + 1) = []"
      by (rule finditer_from_none) (auto intro: "1.prems"(4) split: if_splits)
    with True il "1.prems"(3) show ?thesis
      by (simp add: finditer_from.simps [of p s q])
  next
    case False
    with "1.prems"(1,2) have m: "match_at p s i = None"
      by (intro "1.prems"(4)) simp_all
    have "finditer_from p s (i + 1) = [(q, e)]"
      using il m False "1.prems" by (intro "1.IH"(1)) simp_all
    with il m show ?thesis by (simp add: finditer_from.simps [of p s i])
  qed
qed

lemma finditer_from_sound:
  "(a, e) \<in> set (finditer_from p s i) \<Longrightarrow> i \<le> a \<and> a \<le> length s \<and> match_at p s a = Some e"
proof (induction p s i rule: finditer_from.induct)
  case (1 p s i)
  show ?case
  proof (cases "length s < i")
    case True
    with "1.prems" show ?thesis by (simp add: finditer_from.simps [of p s i])
  next
    case False
    show ?thesis
    proof (cases "match_at p s i")
      case None
      with False "1.prems" have "(a, e) \<in> set (finditer_from p s (i + 1))"
        by (simp add: finditer_from.simps [of p s i])
      with False None have "i + 1 \<le> a \<and> a \<le> length s \<and> match_at p s a = Some e"
        by (intro "1.IH"(1)) simp_all
      then show ?thesis by simp
    next
      case (Some e')
      with False "1.prems" have
        "(a, e) = (i, e') \<or> (a, e) \<in> set (finditer_from p s (if i < e' then e' else i + 1))"
        by (simp add: finditer_from.simps [of p s i])
      then show ?thesis
      proof
        assume "(a, e) = (i, e')"
        with False Some show ?thesis by simp
      next
        assume "(a, e) \<in> set (finditer_from p s (if i < e' then e' else i + 1))"
        with False Some have
          "(if i < e' then e' else i + 1) \<le> a \<and> a \<le> length s \<and> match_at p s a = Some e"
          by (intro "1.IH"(2)) simp_all
        then show ?thesis by (auto split: if_splits)
      qed
    qed
  qed
qed

lemma fold_snoc_map: "fold (\<lambda>x acc. acc @ [f x]) xs acc = acc @ map f xs"
  by (induction xs arbitrary: acc) simp_all

lemma rule303_loop_map:
  "rule303_loop unit src fnds = fnds @ map (mk303 unit src) (finditer SET_EXT_CHECK_RE src)"
proof -
  have "(\<lambda>(ms, me) acc. acc @ [make_finding unit src ms me ''Rule303_SetExtendedCheck''
             ''Obsolete SET EXTENDED CHECK statement detected.''
             ''Remove the SET EXTENDED CHECK statement entirely.''])
      = (\<lambda>x acc. acc @ [mk303 unit src x])"
    by (intro ext) (simp add: mk303_def split: prod.split)
  then show ?thesis
    by (simp only: rule303_loop_def fold_snoc_map)
qed

lemma rule304_loop_map:
  "rule304_loop unit src fnds = fnds @ map (mk304 unit src) (finditer BREAKPOINT_RE src)"
proof -
  have "(\<lambda>(ms, me) acc. acc @ [make_finding unit src ms me ''Rule304_BreakPointUsage''
             ''BREAK-POINT is not allowed in ABAP Cloud / Key User scenarios.''
             ''Remove or comment out the BREAK-POINT statement.''])
      = (\<lambda>x acc. acc @ [mk304 unit src x])"
    by (intro ext) (simp add: mk304_def split: prod.split)
  then show ?thesis
    by (simp only: rule304_loop_def fold_snoc_map)
qed

lemma findings_of_scan_unit:
  "findings_of (scan_unit u) =
     map (mk303 u (code_or_empty u)) (finditer SET_EXT_CHECK_RE (code_or_empty u))
     @ map (mk304 u (code_or_empty u)) (finditer BREAKPOINT_RE (code_or_empty u))"
  by (simp add: scan_unit_def findings_of_def Let_def rule303_loop_map rule304_loop_map)

lemma mk303_fields:
  "starting_line (mk303 u src (ms, me)) = Some (start_line u + (int (count_nl src ms) + 1))"
  "ending_line (mk303 u src (ms, me)) = Some (start_line u + (int (count_nl src ms) + 1))"
  "issues_type (mk303 u src (ms, me)) = Some ''Rule303_SetExtendedCheck''"
  "snippet (mk303 u src (ms, me)) = Some (escape_nl (extract_line src ms))"
  by (simp_all add: mk303_def make_finding_def Let_def)

lemma mk304_fields:
  "starting_line (mk304 u src (ms, me)) = Some (start_line u + (int (count_nl src ms) + 1))"
  "ending_line (mk304 u src (ms, me)) = Some (start_line u + (int (count_nl src ms) + 1))"
  "issues_type (mk304 u src (ms, me)) = Some ''Rule304_BreakPointUsage''"
  "snippet (mk304 u src (ms, me)) = Some (escape_nl (extract_line src ms))"
  by (simp_all add: mk304_def make_finding_def Let_def)

lemma letter_offsets_mem:
  "q < length s \<Longrightarrow> tolower (s ! q) = tolower c \<Longrightarrow> q + i \<in> set (letter_offsets c s i)"
proof (induction s arbitrary: q i)
  case Nil
  then show ?case by simp
next
  case (Cons x xs)
  show ?case
  proof (cases q)
    case 0
    with Cons.prems show ?thesis by simp
  next
    case (Suc q')
    with Cons.prems have "q' + Suc i \<in> set (letter_offsets c xs (Suc i))"
      by (intro Cons.IH) simp_all
    with Suc show ?thesis by simp
  qed
qed

lemma ci_match_candidates:
  "ci_match (c # cs) s q \<Longrightarrow> q \<in> set (letter_offsets c s 0)"
  using letter_offsets_mem [of q s c 0] by (simp add: ci_match_Cons)

lemma kw304_text_candidates: "kw304_text s q \<Longrightarrow> q \<in> set (letter_offsets (CHR ''B'') s 0)"
  unfolding kw304_text_def by (rule ci_match_candidates)

lemma phrase303_text_candidates:
  "phrase303_text s q \<Longrightarrow> q \<in> set (letter_offsets (CHR ''S'') s 0)"
  unfolding phrase303_text_def by (blast intro: ci_match_candidates)

lemma kw304_at_le: "kw304_at s q \<Longrightarrow> q + 11 \<le> length s"
  using ci_match_length [of "''BREAK-POINT''" s q] by (simp add: kw304_at_def kw304_text_def)

lemma phrase303_at_le: "phrase303_at s q \<Longrightarrow> q + 3 \<le> length s"
  using ci_match_length [of "''SET''" s q] by (simp add: phrase303_at_def phrase303_text_def)

lemma finditer_304_unique:
  assumes "\<forall>q. kw304_at s q = (q = p)"
  shows "finditer BREAKPOINT_RE s = [(p, kw304_end s p)]"
  unfolding finditer_def
proof (rule finditer_from_single)
  from assms have at: "kw304_at s p" by simp
  then show "p \<le> length s" using kw304_at_le [of s p] by simp
  from at show "match_at BREAKPOINT_RE s p = Some (kw304_end s p)" by (simp add: match_304)
  show "match_at BREAKPOINT_RE s j = None" if "j \<noteq> p" for j
    using assms that by (simp add: match_304)
qed simp

lemma finditer_303_unique:
  assumes "\<forall>q. phrase303_at s q = (q = p)"
  shows "finditer SET_EXT_CHECK_RE s = [(p, phrase303_last s p + 5)]"
  unfolding finditer_def
proof (rule finditer_from_single)
  from assms have at: "phrase303_at s p" by simp
  then show "p \<le> length s" using phrase303_at_le [of s p] by simp
  from at show "match_at SET_EXT_CHECK_RE s p = Some (phrase303_last s p + 5)"
    by (simp add: match_303)
  show "match_at SET_EXT_CHECK_RE s j = None" if "j \<noteq> p" for j
    using assms that by (simp add: match_303)
qed simp

lemma finditer_304_none: "(\<And>q. \<not> kw304_at s q) \<Longrightarrow> finditer BREAKPOINT_RE s = []"
  unfolding finditer_def by (rule finditer_from_none) (simp add: match_304)

lemma finditer_303_none: "(\<And>q. \<not> phrase303_at s q) \<Longrightarrow> finditer SET_EXT_CHECK_RE s = []"
  unfolding finditer_def by (rule finditer_from_none) (simp add: match_303)

lemma finditer_304_sound:
  "(a, e) \<in> set (finditer BREAKPOINT_RE s) \<Longrightarrow> kw304_at s a \<and> e = kw304_end s a"
  using finditer_from_sound [of a e BREAKPOINT_RE s 0]
  by (auto simp: finditer_def match_304 split: if_splits)

lemma finditer_303_sound:
  "(a, e) \<in> set (finditer SET_EXT_CHECK_RE s) \<Longrightarrow> phrase303_at s a \<and> e = phrase303_last s a + 5"
  using finditer_from_sound [of a e SET_EXT_CHECK_RE s 0]
  by (auto simp: finditer_def match_303 split: if_splits)

lemma split_nl_not_Nil: "split_nl s \<noteq> []"
  by (induction s) (auto split: list.splits)

lemma on_line_count:
  "p \<le> length s \<Longrightarrow> on_line (split_nl s) p k = (k = Suc (count_nl s p))"
proof (induction s arbitrary: p k)
  case Nil
  then show ?case by (simp add: count_nl_def)
next
  case (Cons c cs)
  show ?case
  proof (cases p)
    case 0
    then show ?thesis
      by (auto simp: count_nl_def split: list.splits)
  next
    case (Suc p')
    with Cons.prems have p': "p' \<le> length cs" by simp
    have ih: "on_line (split_nl cs) p' k' = (k' = Suc (count_nl cs p'))" for k'
      using p' by (rule Cons.IH)
    show ?thesis
    proof (cases "c = NL")
      case True
      with Suc ih [of "k - 1"] show ?thesis
        by (auto simp: count_nl_def)
    next
      case False
      obtain l ls where sp: "split_nl cs = l # ls"
        using split_nl_not_Nil [of cs] by (cases "split_nl cs") auto
      with False Suc ih [of k] show ?thesis
        by (auto simp: count_nl_def)
    qed
  qed
qed

lemma rfind_nl_line:
  assumes "NL \<notin> set line"
  shows "p \<le> length line \<Longrightarrow>
         rfind_nl (pre @ line @ post) (length pre + p) = rfind_nl (pre @ line @ post) (length pre)"
proof (induction p)
  case 0
  then show ?case by simp
next
  case (Suc p)
  then have "(pre @ line @ post) ! (length pre + p) = line ! p"
    by (simp add: nth_append)
  moreover have "line ! p \<noteq> NL"
    using assms Suc.prems by (metis Suc_le_lessD nth_mem)
  ultimately show ?case
    using Suc by simp
qed

lemma rfind_nl_start:
  assumes "pre = [] \<or> last pre = NL"
  shows "(case rfind_nl (pre @ r) (length pre) of None \<Rightarrow> 0 | Some j \<Rightarrow> j + 1) = length pre"
proof (cases pre rule: rev_cases)
  case Nil
  then show ?thesis by simp
next
  case (snoc ys y)
  with assms have "y = NL" by simp
  with snoc show ?thesis by (simp add: nth_append)
qed

lemma find_nl_line:
  assumes "NL \<notin> set line" and "post = [] \<or> hd post = NL"
  shows "p \<le> length line \<Longrightarrow>
         (case find_nl (pre @ line @ post) (length pre + (length line - p)) of
            None \<Rightarrow> length (pre @ line @ post) | Some j \<Rightarrow> j) = length pre + length line"
proof (induction p)
  case 0
  show ?case
  proof (cases post)
    case Nil
    then show ?thesis
      by (simp add: find_nl.simps [of _ "length pre + length line"])
  next
    case (Cons y ys)
    with assms(2) have "y = NL" by simp
    with Cons show ?thesis
      by (simp add: find_nl.simps [of _ "length pre + length line"] nth_append)
  qed
next
  case (Suc p)
  let ?s = "pre @ line @ post"
  let ?i = "length line - Suc p"
  let ?q = "length pre + ?i"
  from Suc.prems have i: "?i < length line" by simp
  then have "?s ! ?q = line ! ?i"
    by (simp add: nth_append)
  moreover have "line ! ?i \<noteq> NL"
    using assms(1) i by (metis nth_mem)
  ultimately have ne: "?s ! ?q \<noteq> NL" by simp
  have lt: "\<not> length ?s \<le> ?q" using i by simp
  have "find_nl ?s ?q = find_nl ?s (?q + 1)"
    using ne lt by (subst find_nl.simps) (simp only: if_False)
  moreover have "?q + 1 = length pre + (length line - p)"
    using Suc.prems by simp
  ultimately have "find_nl ?s ?q = find_nl ?s (length pre + (length line - p))"
    by (simp only:)
  moreover have "(case find_nl ?s (length pre + (length line - p)) of
            None \<Rightarrow> length ?s | Some j \<Rightarrow> j) = length pre + length line"
    using Suc.prems by (intro Suc.IH) simp
  ultimately show ?case by (simp only:)
qed

lemma extract_line_physical:
  assumes "NL \<notin> set line" and "pre = [] \<or> last pre = NL" and "post = [] \<or> hd post = NL"
    and "length pre \<le> p" and "p \<le> length pre + length line"
  shows "extract_line (pre @ line @ post) p = line"
proof -
  let ?s = "pre @ line @ post"
  have "rfind_nl ?s (length pre + (p - length pre)) = rfind_nl ?s (length pre)"
    using assms(1) by (rule rfind_nl_line) (use assms(4,5) in simp)
  then have "rfind_nl ?s p = rfind_nl (pre @ (line @ post)) (length pre)"
    using assms(4) by simp
  then have a: "(case rfind_nl ?s p of None \<Rightarrow> 0 | Some j \<Rightarrow> j + 1) = length pre"
    using rfind_nl_start [OF assms(2), of "line @ post"] by simp
  have "(case find_nl ?s (length pre + (length line - (length pre + length line - p))) of
            None \<Rightarrow> length ?s | Some j \<Rightarrow> j) = length pre + length line"
    using assms(1,3) by (rule find_nl_line) (use assms(4) in simp)
  moreover have "length pre + (length line - (length pre + length line - p)) = p"
    using assms(4,5) by simp
  ultimately have b: "(case find_nl ?s p of None \<Rightarrow> length ?s | Some j \<Rightarrow> j) = length pre + length line"
    by (simp only:)
  show ?thesis
    unfolding extract_line_def Let_def a b by (simp add: slice_def)
qed

lemma escape_nl_id: "NL \<notin> set l \<Longrightarrow> escape_nl l = l"
  by (induction l) auto

lemma extract_line_whole: "NL \<notin> set s \<Longrightarrow> p \<le> length s \<Longrightarrow> extract_line s p = s"
  using extract_line_physical [of s "[]" "[]" p] by simp

lemma of_rule_303:
  "of_rule ''Rule303_SetExtendedCheck'' (map (mk303 u src) xs @ map (mk304 u src) ys) = map (mk303 u src) xs"
  by (simp add: of_rule_def mk303_def mk304_def make_finding_def Let_def split_beta)

lemma of_rule_304:
  "of_rule ''Rule304_BreakPointUsage'' (map (mk303 u src) xs @ map (mk304 u src) ys) = map (mk304 u src) ys"
  by (simp add: of_rule_def mk303_def mk304_def make_finding_def Let_def split_beta)

lemma findings_scan_unit:
  "findings (scan_unit u) = (if findings_of (scan_unit u) = [] then None else Some (findings_of (scan_unit u)))"
  by (simp add: scan_unit_def findings_of_def Let_def)

lemma code_or_empty_Some: "code u = Some src \<Longrightarrow> code_or_empty u = src"
  by (simp add: code_or_empty_def)

lemma line_of_303:
  assumes "phrase303_at src p" and "on_line (split_nl src) p k"
  shows "int (count_nl src p) + 1 = int k"
proof -
  from assms(1) have "p \<le> length src" using phrase303_at_le [of src p] by simp
  with assms(2) show ?thesis by (simp add: on_line_count)
qed

lemma line_of_304:
  assumes "kw304_at src p" and "on_line (split_nl src) p k"
  shows "int (count_nl src p) + 1 = int k"
proof -
  from assms(1) have "p \<le> length src" using kw304_at_le [of src p] by simp
  with assms(2) show ?thesis by (simp add: on_line_count)
qed

lemmas eval_defs = NL_def CR_def tolower_eq lower_code_def is_word_def is_space_def
  ci_match_def embedded_def run_def space_run_def word_run_def

lemma only_candidate:
  assumes "\<And>q. P q \<Longrightarrow> q \<in> set cs" and "cs = [p]" and "P p"
  shows "\<forall>q. P q = (q = p)"
proof (intro allI iffI)
  fix q
  assume "P q"
  then have "q \<in> set cs" by (rule assms(1))
  with assms(2) show "q = p" by simp
next
  fix q
  assume "q = p"
  with assms(3) show "P q" by simp
qed

lemma all_candidates:
  assumes "\<And>q. P q \<Longrightarrow> q \<in> set cs" and "cs = [p]" and "Q p"
  shows "\<forall>q. P q \<longrightarrow> Q q"
proof (intro allI impI)
  fix q
  assume "P q"
  then have "q \<in> set cs" by (rule assms(1))
  with assms(2) have "q = p" by simp
  with assms(3) show "Q q" by simp
qed

lemma no_304_when_embedded:
  assumes "\<forall>p. kw304_text src p \<longrightarrow> embedded src p (p + 11)"
  shows "finditer BREAKPOINT_RE src = []"
  using assms by (intro finditer_304_none) (auto simp: kw304_at_def)

lemma no_303_when_embedded:
  assumes "\<forall>p. phrase303_text src p \<longrightarrow> embedded src p (phrase303_last src p + 5)"
  shows "finditer SET_EXT_CHECK_RE src = []"
  using assms by (intro finditer_303_none) (auto simp: phrase303_at_def)

lemma scan_unit_obj_eq:
  "a < length heap \<Longrightarrow> scan_unit_obj heap a = Some (length heap, heap @ [scan_unit (heap ! a)])"
  by (simp add: scan_unit_obj_def scan_unit_def Let_def nth_append)

lemma no_match_in_spaces_304:
  assumes "\<forall>c \<in> set s. is_space c"
  shows "\<not> kw304_at s q"
proof
  assume "kw304_at s q"
  then have m: "ci_match ''BREAK-POINT'' s q" by (simp add: kw304_at_def kw304_text_def)
  then have "q < length s" and "tolower (s ! q) = tolower (CHR ''B'')"
    by (simp_all add: ci_match_Cons)
  then have "\<not> is_space (s ! q)" and "s ! q \<in> set s"
    using tolower_letter [of "s ! q" "CHR ''B''"] by simp_all
  with assms show False by blast
qed

lemma no_match_in_spaces_303:
  assumes "\<forall>c \<in> set s. is_space c"
  shows "\<not> phrase303_at s q"
proof
  assume "phrase303_at s q"
  then have m: "ci_match ''SET'' s q" by (simp add: phrase303_at_def phrase303_text_def)
  then have "q < length s" and "tolower (s ! q) = tolower (CHR ''S'')"
    by (simp_all add: ci_match_Cons)
  then have "\<not> is_space (s ! q)" and "s ! q \<in> set s"
    using tolower_letter [of "s ! q" "CHR ''S''"] by simp_all
  with assms show False by blast
qed

lemma findings_None_iff:
  "(findings (scan_unit u) = None) =
     (finditer SET_EXT_CHECK_RE (code_or_empty u) = [] \<and> finditer BREAKPOINT_RE (code_or_empty u) = [])"
  by (simp add: findings_scan_unit [of u] findings_of_scan_unit)

lemma findings_not_empty_list: "findings (scan_unit u) \<noteq> Some []"
  by (simp add: scan_unit_def Let_def)

lemma scan_array_fold:
  "fold (\<lambda>u results. let scanned = scan_unit u
                      in if truthy (findings scanned) then results @ [scanned] else results)
        units acc
   = acc @ filter (\<lambda>x. truthy (findings x)) (map scan_unit units)"
  by (induction units arbitrary: acc) (simp_all add: Let_def)

lemma no_candidates_303: "letter_offsets (CHR ''S'') s 0 = [] \<Longrightarrow> finditer SET_EXT_CHECK_RE s = []"
proof (rule finditer_303_none)
  fix q
  assume e: "letter_offsets (CHR ''S'') s 0 = []"
  show "\<not> phrase303_at s q"
  proof
    assume "phrase303_at s q"
    then have "q \<in> set (letter_offsets (CHR ''S'') s 0)"
      by (intro phrase303_text_candidates) (simp add: phrase303_at_def)
    with e show False by simp
  qed
qed

lemma no_candidates_304: "letter_offsets (CHR ''B'') s 0 = [] \<Longrightarrow> finditer BREAKPOINT_RE s = []"
proof (rule finditer_304_none)
  fix q
  assume e: "letter_offsets (CHR ''B'') s 0 = []"
  show "\<not> kw304_at s q"
  proof
    assume "kw304_at s q"
    then have "q \<in> set (letter_offsets (CHR ''B'') s 0)"
      by (intro kw304_text_candidates) (simp add: kw304_at_def)
    with e show False by simp
  qed
qed

lemma count_nl_no_NL: "NL \<notin> set s \<Longrightarrow> count_nl s p = 0"
proof -
  assume "NL \<notin> set s"
  then have "NL \<notin> set (take p s)" by (meson in_set_takeD)
  then show ?thesis by (auto simp: count_nl_def filter_empty_conv)
qed

lemma finding_without_NL:
  assumes "NL \<notin> set src" and "code u = Some src" and "f \<in> set (findings_of (scan_unit u))"
  shows "starting_line f = Some (start_line u + 1) \<and> snippet f = Some src"
proof -
  from assms(2) have src: "code_or_empty u = src" by (rule code_or_empty_Some)
  from assms(3) have "f \<in> mk303 u src ` set (finditer SET_EXT_CHECK_RE src)
      \<or> f \<in> mk304 u src ` set (finditer BREAKPOINT_RE src)"
    by (simp only: findings_of_scan_unit src set_append set_map Un_iff)
  then show ?thesis
  proof
    assume "f \<in> mk303 u src ` set (finditer SET_EXT_CHECK_RE src)"
    then obtain a e where ae: "(a, e) \<in> set (finditer SET_EXT_CHECK_RE src)"
      and f: "f = mk303 u src (a, e)" by auto
    from ae have "phrase303_at src a" using finditer_303_sound by blast
    then have "a \<le> length src" using phrase303_at_le [of src a] by simp
    with assms(1) have "extract_line src a = src" by (rule extract_line_whole)
    with assms(1) show ?thesis
      by (simp add: f mk303_fields count_nl_no_NL escape_nl_id)
  next
    assume "f \<in> mk304 u src ` set (finditer BREAKPOINT_RE src)"
    then obtain a e where ae: "(a, e) \<in> set (finditer BREAKPOINT_RE src)"
      and f: "f = mk304 u src (a, e)" by auto
    from ae have "kw304_at src a" using finditer_304_sound by blast
    then have "a \<le> length src" using kw304_at_le [of src a] by simp
    with assms(1) have "extract_line src a = src" by (rule extract_line_whole)
    with assms(1) show ?thesis
      by (simp add: f mk304_fields count_nl_no_NL escape_nl_id)
  qed
qed

lemma line_decomposition:
  assumes "a \<le> length s"
  shows "\<exists>pre line post. s = pre @ line @ post \<and> NL \<notin> set line
           \<and> (pre = [] \<or> last pre = NL) \<and> (post = [] \<or> hd post = NL)
           \<and> length pre \<le> a \<and> a \<le> length pre + length line"
proof -
  let ?P = "\<lambda>c. c \<noteq> NL"
  let ?r = "rev (take a s)"
  let ?pre = "rev (dropWhile ?P ?r)"
  let ?l1 = "rev (takeWhile ?P ?r)"
  let ?l2 = "takeWhile ?P (drop a s)"
  let ?post = "dropWhile ?P (drop a s)"
  have "rev ?r = rev (takeWhile ?P ?r @ dropWhile ?P ?r)"
    by (simp only: takeWhile_dropWhile_id)
  also have "\<dots> = ?pre @ ?l1" by (rule rev_append)
  finally have "rev ?r = ?pre @ ?l1" .
  then have t: "take a s = ?pre @ ?l1" by (simp only: rev_rev_ident)
  have d: "drop a s = ?l2 @ ?post" by simp
  have "s = take a s @ drop a s" by simp
  then have s: "s = ?pre @ (?l1 @ ?l2) @ ?post"
    using t d by (metis append.assoc)
  have n: "NL \<notin> set (?l1 @ ?l2)"
    by (auto dest: set_takeWhileD)
  have p: "?pre = [] \<or> last ?pre = NL"
  proof (cases "dropWhile ?P ?r")
    case Nil
    then show ?thesis by simp
  next
    case (Cons y ys)
    then have "\<not> ?P (hd (dropWhile ?P ?r))"
      using hd_dropWhile [of ?P ?r] by simp
    with Cons show ?thesis by simp
  qed
  have q: "?post = [] \<or> hd ?post = NL"
  proof (cases ?post)
    case Nil
    then show ?thesis by simp
  next
    case (Cons y ys)
    then have "\<not> ?P (hd ?post)"
      using hd_dropWhile [of ?P "drop a s"] by simp
    then show ?thesis by simp
  qed
  have "length (take a s) = length ?pre + length ?l1"
    by (subst t) simp
  with assms have la: "a = length ?pre + length ?l1" by simp
  then have b: "length ?pre \<le> a" and c: "a \<le> length ?pre + length (?l1 @ ?l2)"
    by simp_all
  show ?thesis
    by (rule exI [of _ ?pre], rule exI [of _ "?l1 @ ?l2"], rule exI [of _ ?post])
       (use s n p q b c in blast)
qed

lemma count_nl_physical:
  assumes "NL \<notin> set line" and "length pre \<le> a" and "a \<le> length pre + length line"
  shows "count_nl (pre @ line @ post) a = length (filter (\<lambda>c. c = NL) pre)"
proof -
  have "take a (pre @ line @ post) = pre @ take (a - length pre) line"
    using assms(2,3) by simp
  moreover have "NL \<notin> set (take (a - length pre) line)"
    using assms(1) by (meson in_set_takeD)
  ultimately show ?thesis
    by (auto simp: count_nl_def filter_empty_conv)
qed

lemma finding_physical_line:
  assumes "code u = Some src" and "f \<in> set (findings_of (scan_unit u))"
  shows "\<exists>a \<in> fst ` set (finditer SET_EXT_CHECK_RE src @ finditer BREAKPOINT_RE src).
           (\<exists>pre line post. physical_line src a pre line post)
         \<and> (\<forall>pre line post. physical_line src a pre line post \<longrightarrow>
                snippet f = Some line
              \<and> starting_line f
                  = Some (start_line u + 1 + int (length (filter (\<lambda>c. c = NL) pre))))"
proof -
  from assms(1) have src: "code_or_empty u = src" by (rule code_or_empty_Some)
  from assms(2) have "f \<in> mk303 u src ` set (finditer SET_EXT_CHECK_RE src)
      \<or> f \<in> mk304 u src ` set (finditer BREAKPOINT_RE src)"
    by (simp only: findings_of_scan_unit src set_append set_map Un_iff)
  then obtain a e where mem: "(a, e) \<in> set (finditer SET_EXT_CHECK_RE src @ finditer BREAKPOINT_RE src)"
    and al: "a \<le> length src"
    and sl: "starting_line f = Some (start_line u + (int (count_nl src a) + 1))"
    and sn: "snippet f = Some (escape_nl (extract_line src a))"
  proof
    assume "f \<in> mk303 u src ` set (finditer SET_EXT_CHECK_RE src)"
    then obtain a e where ae: "(a, e) \<in> set (finditer SET_EXT_CHECK_RE src)"
      and f: "f = mk303 u src (a, e)" by auto
    from ae have "phrase303_at src a" using finditer_303_sound by blast
    then have "a \<le> length src" using phrase303_at_le [of src a] by simp
    with ae f that [of a e] show ?thesis by (simp add: mk303_fields)
  next
    assume "f \<in> mk304 u src ` set (finditer BREAKPOINT_RE src)"
    then obtain a e where ae: "(a, e) \<in> set (finditer BREAKPOINT_RE src)"
      and f: "f = mk304 u src (a, e)" by auto
    from ae have "kw304_at src a" using finditer_304_sound by blast
    then have "a \<le> length src" using kw304_at_le [of src a] by simp
    with ae f that [of a e] show ?thesis by (simp add: mk304_fields)
  qed
  from mem have m: "a \<in> fst ` set (finditer SET_EXT_CHECK_RE src @ finditer BREAKPOINT_RE src)"
    by force
  have ex: "\<exists>pre line post. physical_line src a pre line post"
    using line_decomposition [OF al] by (simp only: physical_line_def)
  have all: "snippet f = Some line
      \<and> starting_line f = Some (start_line u + 1 + int (length (filter (\<lambda>c. c = NL) pre)))"
    if "physical_line src a pre line post" for pre line post
  proof -
    from that have dec: "src = pre @ line @ post" "NL \<notin> set line"
      "pre = [] \<or> last pre = NL" "post = [] \<or> hd post = NL"
      "length pre \<le> a" "a \<le> length pre + length line"
      by (simp_all add: physical_line_def)
    have "extract_line src a = line"
      unfolding dec(1) using dec(2-6) by (rule extract_line_physical)
    with sn dec(2) have sn': "snippet f = Some line" by (simp add: escape_nl_id)
    have "count_nl src a = length (filter (\<lambda>c. c = NL) pre)"
      unfolding dec(1) using dec(2,5,6) by (rule count_nl_physical)
    with sl have "starting_line f
        = Some (start_line u + 1 + int (length (filter (\<lambda>c. c = NL) pre)))"
      by simp
    with sn' show ?thesis by simp
  qed
  from m ex all show ?thesis by blast
qed

lemma escape_nl_concat:
  "escape_nl xs = concat (map (\<lambda>c. if c = NL then [BACKSLASH, CHR ''n''] else [c]) xs)"
  by (induction xs) simp_all

section \<open>The two statements as parts of a text\<close>

text \<open>
  The keyword of rule 304 stands as a word of its own at offset \<open>p\<close> exactly when the
  text is a prefix of length \<open>p\<close>, the keyword in some letter case, and a rest, with no
  word character at the end of the prefix or at the start of the rest; the phrase of
  rule 303 likewise, its three words with white space between them.
\<close>

lemma ci_match_word:
  assumes "map tolower t = map tolower w"
  shows "ci_match w (pre @ t @ post) (length pre)"
proof -
  from assms have "length (map tolower t) = length (map tolower w)" by (simp only:)
  then have "length t = length w" by simp
  with assms show ?thesis by (simp add: ci_match_def)
qed

lemma embedded_append:
  "embedded (pre @ t @ post) (length pre) (length pre + length t) =
     ((pre \<noteq> [] \<and> is_word (last pre)) \<or> (post \<noteq> [] \<and> is_word (hd post)))"
proof -
  have a: "(0 < length pre \<and> is_word ((pre @ t @ post) ! (length pre - 1)))
      = (pre \<noteq> [] \<and> is_word (last pre))"
    by (cases pre rule: rev_cases) (simp_all add: nth_append)
  have b: "(length pre + length t < length (pre @ t @ post)
        \<and> is_word ((pre @ t @ post) ! (length pre + length t)))
      = (post \<noteq> [] \<and> is_word (hd post))"
    by (cases post) (simp_all add: nth_append)
  show ?thesis
    unfolding embedded_def a b ..
qed

lemma kw304_at_intro:
  assumes "map tolower w = map tolower ''BREAK-POINT''"
    and "pre = [] \<or> \<not> is_word (last pre)" and "post = [] \<or> \<not> is_word (hd post)"
  shows "kw304_at (pre @ w @ post) (length pre)"
proof -
  from assms(1) have "length (map tolower w) = length (map tolower ''BREAK-POINT'')"
    by (simp only:)
  then have len: "length w = 11" by simp
  have m: "ci_match ''BREAK-POINT'' (pre @ w @ post) (length pre)"
    using assms(1) by (rule ci_match_word)
  have "\<not> embedded (pre @ w @ post) (length pre) (length pre + length w)"
    using assms(2,3) by (simp only: embedded_append) blast
  then have "\<not> embedded (pre @ w @ post) (length pre) (length pre + 11)"
    by (simp add: len)
  with m show ?thesis
    by (simp only: kw304_at_def kw304_text_def) simp
qed

lemma kw304_at_elim:
  assumes "kw304_at s p"
  shows "\<exists>pre w post. s = pre @ w @ post \<and> length pre = p
           \<and> map tolower w = map tolower ''BREAK-POINT''
           \<and> (pre = [] \<or> \<not> is_word (last pre)) \<and> (post = [] \<or> \<not> is_word (hd post))"
proof -
  let ?pre = "take p s" and ?w = "take 11 (drop p s)" and ?post = "drop 11 (drop p s)"
  from assms have len: "p + 11 \<le> length s" by (rule kw304_at_le)
  have "s = ?pre @ drop p s" by simp
  also have "drop p s = ?w @ ?post" by (rule append_take_drop_id [symmetric])
  finally have s: "s = ?pre @ ?w @ ?post" .
  have lp: "length ?pre = p" and lw: "length ?w = 11" using len by simp_all
  have l11: "length ''BREAK-POINT'' = 11" by simp
  from assms have "ci_match ''BREAK-POINT'' s p" by (simp add: kw304_at_def kw304_text_def)
  then have m: "map tolower ?w = map tolower ''BREAK-POINT''"
    by (simp only: ci_match_def l11)
  from assms have "\<not> embedded s p (p + 11)" by (simp add: kw304_at_def)
  then have "\<not> embedded (?pre @ ?w @ ?post) (length ?pre) (length ?pre + length ?w)"
    unfolding s [symmetric] lp lw .
  then have e: "(?pre = [] \<or> \<not> is_word (last ?pre)) \<and> (?post = [] \<or> \<not> is_word (hd ?post))"
    by (simp only: embedded_append) blast
  show ?thesis
    by (rule exI [of _ ?pre], rule exI [of _ ?w], rule exI [of _ ?post])
       (use s lp m e in blast)
qed


lemma takeWhile_block:
  assumes "\<forall>c \<in> set w. P c" and "r = [] \<or> \<not> P (hd r)"
  shows "takeWhile P (w @ r) = w"
proof -
  have "takeWhile P r = []" using assms(2) by (cases r) auto
  with assms(1) show ?thesis by (simp add: takeWhile_append2)
qed

lemma space_run_block:
  assumes "\<forall>c \<in> set w. is_space c" and "r = [] \<or> \<not> is_space (hd r)"
  shows "space_run (pre @ w @ r) (length pre) = length w"
  using takeWhile_block [OF assms] by (simp add: space_run_def run_def)

lemma word_not_space_hd:
  assumes "map tolower t = map tolower (c # cs)"
    and "65 \<le> (of_char c :: nat) \<and> (of_char c :: nat) \<le> 90"
  shows "t @ r = [] \<or> \<not> is_space (hd (t @ r))"
proof -
  from assms(1) obtain x xs where t: "t = x # xs" and x: "tolower x = tolower c"
    by (cases t) auto
  from x assms(2) have "\<not> is_space x" using tolower_letter by blast
  with t show ?thesis by simp
qed

lemma phrase303_at_intro:
  assumes t1: "map tolower t1 = map tolower ''SET''"
    and t2: "map tolower t2 = map tolower ''EXTENDED''"
    and t3: "map tolower t3 = map tolower ''CHECK''"
    and w1: "w1 \<noteq> []" "\<forall>c \<in> set w1. is_space c"
    and w2: "w2 \<noteq> []" "\<forall>c \<in> set w2. is_space c"
    and pre: "pre = [] \<or> \<not> is_word (last pre)"
    and post: "post = [] \<or> \<not> is_word (hd post)"
  shows "phrase303_at (pre @ t1 @ w1 @ t2 @ w2 @ t3 @ post) (length pre)"
proof -
  let ?s = "pre @ t1 @ w1 @ t2 @ w2 @ t3 @ post"
  let ?p = "length pre"
  from t1 have "length (map tolower t1) = length (map tolower ''SET'')" by (simp only:)
  then have l1: "length t1 = 3" by simp
  from t2 have "length (map tolower t2) = length (map tolower ''EXTENDED'')" by (simp only:)
  then have l2: "length t2 = 8" by simp
  from t3 have "length (map tolower t3) = length (map tolower ''CHECK'')" by (simp only:)
  then have l3: "length t3 = 5" by simp
  have m1: "ci_match ''SET'' ?s ?p"
    using t1 by (rule ci_match_word)
  have "space_run ((pre @ t1) @ w1 @ (t2 @ w2 @ t3 @ post)) (length (pre @ t1)) = length w1"
    using w1(2) by (rule space_run_block) (rule word_not_space_hd [OF t2], simp)
  then have r1: "space_run ?s (?p + 3) = length w1" by (simp add: l1)
  then have mid: "phrase303_mid ?s ?p = length (pre @ t1 @ w1)"
    by (simp add: phrase303_mid_def l1)
  have "ci_match ''EXTENDED'' ((pre @ t1 @ w1) @ t2 @ (w2 @ t3 @ post)) (length (pre @ t1 @ w1))"
    using t2 by (rule ci_match_word)
  then have m2: "ci_match ''EXTENDED'' ?s (phrase303_mid ?s ?p)"
    by (simp add: mid)
  have "space_run ((pre @ t1 @ w1 @ t2) @ w2 @ (t3 @ post)) (length (pre @ t1 @ w1 @ t2)) = length w2"
    using w2(2) by (rule space_run_block) (rule word_not_space_hd [OF t3], simp)
  then have r2: "space_run ?s (phrase303_mid ?s ?p + 8) = length w2"
    by (simp add: mid l2 ac_simps)
  then have last: "phrase303_last ?s ?p = length (pre @ t1 @ w1 @ t2 @ w2)"
    by (simp add: phrase303_last_def mid l2 ac_simps)
  have "ci_match ''CHECK'' ((pre @ t1 @ w1 @ t2 @ w2) @ t3 @ post) (length (pre @ t1 @ w1 @ t2 @ w2))"
    using t3 by (rule ci_match_word)
  then have m3: "ci_match ''CHECK'' ?s (phrase303_last ?s ?p)"
    by (simp add: last)
  have "\<not> embedded (pre @ (t1 @ w1 @ t2 @ w2 @ t3) @ post) ?p (?p + length (t1 @ w1 @ t2 @ w2 @ t3))"
    using pre post by (simp only: embedded_append) blast
  moreover have "?p + length (t1 @ w1 @ t2 @ w2 @ t3) = phrase303_last ?s ?p + 5"
    by (simp add: last l3 ac_simps)
  ultimately have e: "\<not> embedded ?s ?p (phrase303_last ?s ?p + 5)" by simp
  from w1(1) r1 have "0 < space_run ?s (?p + 3)" by simp
  moreover from w2(1) r2 have "0 < space_run ?s (phrase303_mid ?s ?p + 8)" by simp
  ultimately show ?thesis
    using m1 m2 m3 e by (simp only: phrase303_at_def phrase303_text_def) simp
qed


lemma drop_split: "drop i s = take n (drop i s) @ drop (i + n) s"
proof -
  have "drop (i + n) s = drop n (drop i s)"
    by (simp only: drop_drop add.commute [of i n])
  then show ?thesis
    by (simp only: append_take_drop_id)
qed

lemma phrase303_at_elim:
  assumes "phrase303_at s p"
  shows "\<exists>pre t1 w1 t2 w2 t3 post.
           s = pre @ t1 @ w1 @ t2 @ w2 @ t3 @ post \<and> length pre = p
           \<and> map tolower t1 = map tolower ''SET''
           \<and> w1 \<noteq> [] \<and> (\<forall>c \<in> set w1. is_space c)
           \<and> map tolower t2 = map tolower ''EXTENDED''
           \<and> w2 \<noteq> [] \<and> (\<forall>c \<in> set w2. is_space c)
           \<and> map tolower t3 = map tolower ''CHECK''
           \<and> (pre = [] \<or> \<not> is_word (last pre)) \<and> (post = [] \<or> \<not> is_word (hd post))"
proof -
  let ?m = "phrase303_mid s p" and ?l = "phrase303_last s p"
  let ?pre = "take p s"
  let ?t1 = "take 3 (drop p s)"
  let ?w1 = "takeWhile is_space (drop (p + 3) s)"
  let ?t2 = "take 8 (drop ?m s)"
  let ?w2 = "takeWhile is_space (drop (?m + 8) s)"
  let ?t3 = "take 5 (drop ?l s)"
  let ?post = "drop (?l + 5) s"
  from assms have tx: "phrase303_text s p" and ne: "\<not> embedded s p (?l + 5)"
    by (simp_all add: phrase303_at_def)
  from tx have m1: "ci_match ''SET'' s p" and r1: "0 < space_run s (p + 3)"
    and m2: "ci_match ''EXTENDED'' s ?m" and r2: "0 < space_run s (?m + 8)"
    and m3: "ci_match ''CHECK'' s ?l"
    by (simp_all add: phrase303_text_def)
  have l3: "length ''SET'' = 3" and l8: "length ''EXTENDED'' = 8" and l5: "length ''CHECK'' = 5"
    by simp_all
  from m1 have e1: "map tolower ?t1 = map tolower ''SET''" by (simp only: ci_match_def l3)
  from m2 have e2: "map tolower ?t2 = map tolower ''EXTENDED''" by (simp only: ci_match_def l8)
  from m3 have e3: "map tolower ?t3 = map tolower ''CHECK''" by (simp only: ci_match_def l5)
  from e1 have "length (map tolower ?t1) = length (map tolower ''SET'')" by (simp only:)
  then have n1: "length ?t1 = 3" by (simp only: length_map l3)
  from e2 have "length (map tolower ?t2) = length (map tolower ''EXTENDED'')" by (simp only:)
  then have n2: "length ?t2 = 8" by (simp only: length_map l8)
  from e3 have "length (map tolower ?t3) = length (map tolower ''CHECK'')" by (simp only:)
  then have n3: "length ?t3 = 5" by (simp only: length_map l5)
  have lw1: "length ?w1 = space_run s (p + 3)" by (simp add: space_run_def run_def)
  have lw2: "length ?w2 = space_run s (?m + 8)" by (simp add: space_run_def run_def)
  from m1 have "p + 3 \<le> length s" using ci_match_length [of "''SET''" s p] by simp
  then have lp: "length ?pre = p" by simp
  have d0: "s = ?pre @ drop p s" by simp
  have d1: "drop p s = ?t1 @ drop (p + 3) s"
    by (rule drop_split)
  have "dropWhile is_space (drop (p + 3) s) = drop (length ?w1) (drop (p + 3) s)"
    by (rule dropWhile_eq_drop)
  also have "\<dots> = drop ?m s"
    by (simp add: lw1 phrase303_mid_def ac_simps)
  finally have "drop (p + 3) s = ?w1 @ drop ?m s"
    using takeWhile_dropWhile_id [of is_space "drop (p + 3) s"] by simp
  note d2 = this
  have d3: "drop ?m s = ?t2 @ drop (?m + 8) s"
    by (rule drop_split)
  have "dropWhile is_space (drop (?m + 8) s) = drop (length ?w2) (drop (?m + 8) s)"
    by (rule dropWhile_eq_drop)
  also have "\<dots> = drop ?l s"
    by (simp add: lw2 phrase303_last_def ac_simps)
  finally have "drop (?m + 8) s = ?w2 @ drop ?l s"
    using takeWhile_dropWhile_id [of is_space "drop (?m + 8) s"] by simp
  note d4 = this
  have d5: "drop ?l s = ?t3 @ ?post"
    by (rule drop_split)
  have "s = ?pre @ ?t1 @ drop (p + 3) s" using d0 d1 by simp
  also have "drop (p + 3) s = ?w1 @ ?t2 @ drop (?m + 8) s" using d2 d3 by simp
  also have "drop (?m + 8) s = ?w2 @ ?t3 @ ?post" using d4 d5 by simp
  finally have s: "s = ?pre @ ?t1 @ ?w1 @ ?t2 @ ?w2 @ ?t3 @ ?post" .
  have w1ne: "?w1 \<noteq> []" using r1 lw1 by auto
  have w2ne: "?w2 \<noteq> []" using r2 lw2 by auto
  have w1s: "\<forall>c \<in> set ?w1. is_space c" by (auto dest: set_takeWhileD)
  have w2s: "\<forall>c \<in> set ?w2. is_space c" by (auto dest: set_takeWhileD)
  have "length (?t1 @ ?w1 @ ?t2 @ ?w2 @ ?t3)
      = length ?t1 + (length ?w1 + (length ?t2 + (length ?w2 + length ?t3)))"
    by (simp only: length_append)
  also have "\<dots> = 3 + (space_run s (p + 3) + (8 + (space_run s (?m + 8) + 5)))"
    by (simp only: n1 n2 n3 lw1 lw2)
  also have "\<dots> = ?l + 5 - p"
    by (simp add: phrase303_last_def phrase303_mid_def)
  finally have "length (?t1 @ ?w1 @ ?t2 @ ?w2 @ ?t3) = ?l + 5 - p" .
  moreover have "p \<le> ?l + 5"
    by (simp add: phrase303_last_def phrase303_mid_def)
  ultimately have len: "p + length (?t1 @ ?w1 @ ?t2 @ ?w2 @ ?t3) = ?l + 5"
    by (simp only: le_add_diff_inverse)
  have "s = ?pre @ (?t1 @ ?w1 @ ?t2 @ ?w2 @ ?t3) @ ?post"
    using s by simp
  with ne have "\<not> embedded (?pre @ (?t1 @ ?w1 @ ?t2 @ ?w2 @ ?t3) @ ?post) p (?l + 5)"
    by simp
  then have "\<not> embedded (?pre @ (?t1 @ ?w1 @ ?t2 @ ?w2 @ ?t3) @ ?post) (length ?pre)
      (length ?pre + length (?t1 @ ?w1 @ ?t2 @ ?w2 @ ?t3))"
    by (simp only: lp len simp_thms)
  then have b: "(?pre = [] \<or> \<not> is_word (last ?pre)) \<and> (?post = [] \<or> \<not> is_word (hd ?post))"
    by (simp only: embedded_append) blast
  show ?thesis
    by (rule exI [of _ ?pre], rule exI [of _ ?t1], rule exI [of _ ?w1], rule exI [of _ ?t2],
        rule exI [of _ ?w2], rule exI [of _ ?t3], rule exI [of _ ?post])
       (use s lp e1 e2 e3 w1ne w2ne w1s w2s b in blast)
qed

lemma kw304_at_iff:
  "kw304_at s p =
     (\<exists>pre w post. s = pre @ w @ post \<and> length pre = p
        \<and> map tolower w = map tolower ''BREAK-POINT''
        \<and> (pre = [] \<or> \<not> is_word (last pre)) \<and> (post = [] \<or> \<not> is_word (hd post)))"
proof
  assume "kw304_at s p"
  then show "\<exists>pre w post. s = pre @ w @ post \<and> length pre = p
        \<and> map tolower w = map tolower ''BREAK-POINT''
        \<and> (pre = [] \<or> \<not> is_word (last pre)) \<and> (post = [] \<or> \<not> is_word (hd post))"
    by (rule kw304_at_elim)
next
  assume "\<exists>pre w post. s = pre @ w @ post \<and> length pre = p
        \<and> map tolower w = map tolower ''BREAK-POINT''
        \<and> (pre = [] \<or> \<not> is_word (last pre)) \<and> (post = [] \<or> \<not> is_word (hd post))"
  then obtain pre w post where "s = pre @ w @ post" "length pre = p"
    "map tolower w = map tolower ''BREAK-POINT''"
    "pre = [] \<or> \<not> is_word (last pre)" "post = [] \<or> \<not> is_word (hd post)"
    by blast
  then show "kw304_at s p"
    using kw304_at_intro [of w pre post] by simp
qed

lemma phrase303_at_iff:
  "phrase303_at s p =
     (\<exists>pre t1 w1 t2 w2 t3 post.
           s = pre @ t1 @ w1 @ t2 @ w2 @ t3 @ post \<and> length pre = p
           \<and> map tolower t1 = map tolower ''SET''
           \<and> w1 \<noteq> [] \<and> (\<forall>c \<in> set w1. is_space c)
           \<and> map tolower t2 = map tolower ''EXTENDED''
           \<and> w2 \<noteq> [] \<and> (\<forall>c \<in> set w2. is_space c)
           \<and> map tolower t3 = map tolower ''CHECK''
           \<and> (pre = [] \<or> \<not> is_word (last pre)) \<and> (post = [] \<or> \<not> is_word (hd post)))"
proof
  assume "phrase303_at s p"
  then show "\<exists>pre t1 w1 t2 w2 t3 post.
           s = pre @ t1 @ w1 @ t2 @ w2 @ t3 @ post \<and> length pre = p
           \<and> map tolower t1 = map tolower ''SET''
           \<and> w1 \<noteq> [] \<and> (\<forall>c \<in> set w1. is_space c)
           \<and> map tolower t2 = map tolower ''EXTENDED''
           \<and> w2 \<noteq> [] \<and> (\<forall>c \<in> set w2. is_space c)
           \<and> map tolower t3 = map tolower ''CHECK''
           \<and> (pre = [] \<or> \<not> is_word (last pre)) \<and> (post = [] \<or> \<not> is_word (hd post))"
    by (rule phrase303_at_elim)
next
  assume "\<exists>pre t1 w1 t2 w2 t3 post.
           s = pre @ t1 @ w1 @ t2 @ w2 @ t3 @ post \<and> length pre = p
           \<and> map tolower t1 = map tolower ''SET''
           \<and> w1 \<noteq> [] \<and> (\<forall>c \<in> set w1. is_space c)
           \<and> map tolower t2 = map tolower ''EXTENDED''
           \<and> w2 \<noteq> [] \<and> (\<forall>c \<in> set w2. is_space c)
           \<and> map tolower t3 = map tolower ''CHECK''
           \<and> (pre = [] \<or> \<not> is_word (last pre)) \<and> (post = [] \<or> \<not> is_word (hd post))"
  then obtain pre t1 w1 t2 w2 t3 post where
    "s = pre @ t1 @ w1 @ t2 @ w2 @ t3 @ post" "length pre = p"
    "map tolower t1 = map tolower ''SET''" "w1 \<noteq> []" "\<forall>c \<in> set w1. is_space c"
    "map tolower t2 = map tolower ''EXTENDED''" "w2 \<noteq> []" "\<forall>c \<in> set w2. is_space c"
    "map tolower t3 = map tolower ''CHECK''"
    "pre = [] \<or> \<not> is_word (last pre)" "post = [] \<or> \<not> is_word (hd post)"
    by blast
  then show "phrase303_at s p"
    using phrase303_at_intro [of t1 t2 t3 w1 w2 pre post] by simp
qed

section \<open>The claims\<close>

text \<open>
  Claim C1. The findings of a scanned unit stand in the order of the matches, rule 303
  first, and the starting line of each is the unit's \<open>start_line\<close> plus one plus the
  number of line feeds of the text before the start of its match; the ending line is
  the same. A unit with \<open>start_line = 100\<close> and the text
  \<^verbatim>\<open>"DATA: lv_x TYPE i.\nBREAK-POINT.\n"\<close> gets exactly one finding, on line 102.
\<close>

theorem starting_line_arithmetic:
  "map starting_line (findings_of (scan_unit u)) =
     map (\<lambda>(ms, me). Some (start_line u
            + (1 + int (length (filter (\<lambda>c. c = NL) (take ms (code_or_empty u)))))))
         (finditer SET_EXT_CHECK_RE (code_or_empty u) @ finditer BREAKPOINT_RE (code_or_empty u))
   \<and> map ending_line (findings_of (scan_unit u)) = map starting_line (findings_of (scan_unit u))
   \<and> (start_line u = 100
        \<and> code u = Some (''DATA: lv_x TYPE i.'' @ [NL] @ ''BREAK-POINT.'' @ [NL])
      \<longrightarrow> (\<exists>f. findings (scan_unit u) = Some [f]
                \<and> starting_line f = Some 102 \<and> ending_line f = Some 102))"
proof (intro conjI impI)
  let ?src = "code_or_empty u"
  show "map starting_line (findings_of (scan_unit u)) =
     map (\<lambda>(ms, me). Some (start_line u
            + (1 + int (length (filter (\<lambda>c. c = NL) (take ms ?src))))))
         (finditer SET_EXT_CHECK_RE ?src @ finditer BREAKPOINT_RE ?src)"
    by (simp add: findings_of_scan_unit mk303_def mk304_def make_finding_def Let_def
        count_nl_def split_beta comp_def)
  show "map ending_line (findings_of (scan_unit u)) = map starting_line (findings_of (scan_unit u))"
    by (simp add: findings_of_scan_unit mk303_def mk304_def make_finding_def Let_def
        split_beta comp_def)
next
  let ?ex = "''DATA: lv_x TYPE i.'' @ [NL] @ ''BREAK-POINT.'' @ [NL]"
  assume a: "start_line u = 100 \<and> code u = Some ?ex"
  then have src: "code_or_empty u = ?ex" by (simp add: code_or_empty_def)
  have none: "\<not> phrase303_at ?ex q" for q
  proof
    assume "phrase303_at ?ex q"
    then have "q \<in> set (letter_offsets (CHR ''S'') ?ex 0)"
      by (intro phrase303_text_candidates) (simp add: phrase303_at_def)
    then show False
      by (simp add: NL_def tolower_eq lower_code_def)
  qed
  have one: "kw304_at ?ex q = (q = 19)" for q
  proof
    assume "kw304_at ?ex q"
    then have "q \<in> set (letter_offsets (CHR ''B'') ?ex 0)"
      by (intro kw304_text_candidates) (simp add: kw304_at_def)
    then show "q = 19"
      by (simp add: NL_def tolower_eq lower_code_def)
  next
    assume "q = 19"
    then show "kw304_at ?ex q"
      by (simp add: NL_def kw304_at_def kw304_text_def ci_match_def embedded_def tolower_eq
          lower_code_def is_word_def)
  qed
  have f3: "finditer SET_EXT_CHECK_RE ?ex = []"
    using none by (rule finditer_303_none)
  have f4: "finditer BREAKPOINT_RE ?ex = [(19, kw304_end ?ex 19)]"
    using one by (intro finditer_304_unique) simp
  have c: "count_nl ?ex 19 = 1"
    by (simp add: count_nl_def NL_def)
  have fs: "findings_of (scan_unit u) = [mk304 u ?ex (19, kw304_end ?ex 19)]"
    by (simp only: findings_of_scan_unit src f3 f4) simp
  have "findings (scan_unit u) = Some [mk304 u ?ex (19, kw304_end ?ex 19)]"
    by (simp only: findings_scan_unit [of u] fs) simp
  moreover have "starting_line (mk304 u ?ex (19, kw304_end ?ex 19)) = Some 102"
    using a by (simp only: mk304_fields c) simp
  moreover have "ending_line (mk304 u ?ex (19, kw304_end ?ex 19)) = Some 102"
    using a by (simp only: mk304_fields c) simp
  ultimately show "\<exists>f. findings (scan_unit u) = Some [f]
                \<and> starting_line f = Some 102 \<and> ending_line f = Some 102"
    by blast
qed

theorem starting_line_arithmetic_witness:
  "start_line \<lparr> pgm_name = ''ZPROG'', inc_name = ''ZINCL'', type = ''PROG'', name = Some ''MAIN'',
        class_implementation = None, start_line = 100, end_line = 102,
        code = Some (''DATA: lv_x TYPE i.'' @ [NL] @ ''BREAK-POINT.'' @ [NL]),
        findings = None \<rparr> = 100
   \<and> (\<exists>f. findings (scan_unit \<lparr> pgm_name = ''ZPROG'', inc_name = ''ZINCL'', type = ''PROG'',
        name = Some ''MAIN'', class_implementation = None, start_line = 100, end_line = 102,
        code = Some (''DATA: lv_x TYPE i.'' @ [NL] @ ''BREAK-POINT.'' @ [NL]),
        findings = None \<rparr>) = Some [f]
        \<and> starting_line f = Some 102 \<and> ending_line f = Some 102)"
  using starting_line_arithmetic [of "\<lparr> pgm_name = ''ZPROG'', inc_name = ''ZINCL'', type = ''PROG'',
        name = Some ''MAIN'', class_implementation = None, start_line = 100, end_line = 102,
        code = Some (''DATA: lv_x TYPE i.'' @ [NL] @ ''BREAK-POINT.'' @ [NL]),
        findings = None \<rparr>"]
  by simp

text \<open>
  Claim C2. When the phrase \<^verbatim>\<open>SET EXTENDED CHECK\<close>, in any letter case, with white
  space of any length between its three words and no word character right before or
  after it, stands in the text of a unit at exactly one offset, and that offset lies on
  line \<open>k\<close> of the text (counted from 1), the scan gives exactly one finding of type
  \<^verbatim>\<open>Rule303_SetExtendedCheck\<close>, and its starting line is \<open>start_line + k\<close>.
\<close>

theorem rule303_phrase_once:
  assumes "code u = Some src"
    and "\<forall>q. phrase303_at src q = (q = p)"
    and "on_line (split_nl src) p k"
  shows "\<exists>f. of_rule ''Rule303_SetExtendedCheck'' (findings_of (scan_unit u)) = [f]
           \<and> starting_line f = Some (start_line u + int k)"
proof -
  let ?f = "mk303 u src (p, phrase303_last src p + 5)"
  from assms(1) have src: "code_or_empty u = src" by (rule code_or_empty_Some)
  have it: "finditer SET_EXT_CHECK_RE src = [(p, phrase303_last src p + 5)]"
    using assms(2) by (rule finditer_303_unique)
  have "of_rule ''Rule303_SetExtendedCheck'' (findings_of (scan_unit u)) = [?f]"
    by (simp only: findings_of_scan_unit src of_rule_303 it) simp
  moreover from assms(2) have "phrase303_at src p" by simp
  then have "int (count_nl src p) + 1 = int k" using assms(3) by (rule line_of_303)
  then have "starting_line ?f = Some (start_line u + int k)"
    by (simp only: mk303_fields)
  ultimately show ?thesis by blast
qed

theorem rule303_phrase_once_witness:
  "(\<forall>q. phrase303_at (''REPORT z.'' @ [NL] @ ''Set   eXtended  CHECK.'' @ [NL]) q = (q = 10))
   \<and> on_line (split_nl (''REPORT z.'' @ [NL] @ ''Set   eXtended  CHECK.'' @ [NL])) 10 2
   \<and> (\<exists>f. of_rule ''Rule303_SetExtendedCheck''
             (findings_of (scan_unit (unit_of (''REPORT z.'' @ [NL] @ ''Set   eXtended  CHECK.'' @ [NL])))) = [f]
          \<and> starting_line f = Some 102)"
proof -
  let ?s = "''REPORT z.'' @ [NL] @ ''Set   eXtended  CHECK.'' @ [NL]"
  have h1: "code (unit_of ?s) = Some ?s" by (simp add: unit_of_def)
  have h2: "\<forall>q. phrase303_at ?s q = (q = 10)"
  proof (rule only_candidate)
    show "q \<in> set (letter_offsets (CHR ''S'') ?s 0)" if "phrase303_at ?s q" for q
      using that by (intro phrase303_text_candidates) (simp add: phrase303_at_def)
    show "letter_offsets (CHR ''S'') ?s 0 = [10]"
      by (simp add: NL_def tolower_eq lower_code_def)
    show "phrase303_at ?s 10"
      by (simp add: phrase303_at_def phrase303_text_def phrase303_mid_def phrase303_last_def
          eval_defs)
  qed
  have h3: "on_line (split_nl ?s) 10 2" by (simp add: NL_def)
  have sl: "start_line (unit_of ?s) + int 2 = 102" by (simp add: unit_of_def)
  note t = rule303_phrase_once [OF h1 h2 h3, unfolded sl]
  from h2 h3 t show ?thesis by (intro conjI)
qed

text \<open>
  Claim C3. When the keyword \<^verbatim>\<open>BREAK-POINT\<close> stands as a word of its own at exactly
  one offset of the text, followed by white space and a word, the scan gives exactly one
  finding of type \<^verbatim>\<open>Rule304_BreakPointUsage\<close>. Its snippet is the physical line of
  that offset: the text between the nearest line feed before it, or the start of the
  text, and the nearest line feed after it, or the end. Its starting line is that of
  the offset where the keyword starts (\<open>start_line + k\<close> for line \<open>k\<close> of the text),
  and the match takes in the white space and the word that follow.
\<close>

theorem rule304_trailing_token:
  assumes "code u = Some src"
    and "\<forall>q. kw304_at src q = (q = p)"
    and "trailing_token src p"
    and "on_line (split_nl src) p k"
    and "src = pre @ line @ post" and "NL \<notin> set line"
    and "pre = [] \<or> last pre = NL" and "post = [] \<or> hd post = NL"
    and "length pre \<le> p" and "p \<le> length pre + length line"
  shows "\<exists>f. of_rule ''Rule304_BreakPointUsage'' (findings_of (scan_unit u)) = [f]
           \<and> snippet f = Some line
           \<and> starting_line f = Some (start_line u + int k)
           \<and> finditer BREAKPOINT_RE src =
               [(p, p + 11 + space_run src (p + 11) + word_run src (p + 11 + space_run src (p + 11)))]"
proof -
  let ?e = "kw304_end src p"
  let ?f = "mk304 u src (p, ?e)"
  from assms(1) have src: "code_or_empty u = src" by (rule code_or_empty_Some)
  have it: "finditer BREAKPOINT_RE src = [(p, ?e)]"
    using assms(2) by (rule finditer_304_unique)
  have "of_rule ''Rule304_BreakPointUsage'' (findings_of (scan_unit u)) = [?f]"
    by (simp only: findings_of_scan_unit src of_rule_304 it) simp
  moreover from assms(2) have "kw304_at src p" by simp
  then have "int (count_nl src p) + 1 = int k" using assms(4) by (rule line_of_304)
  then have "starting_line ?f = Some (start_line u + int k)"
    by (simp only: mk304_fields)
  moreover have "extract_line src p = line"
    unfolding assms(5) using assms(6,7,8,9,10) by (rule extract_line_physical)
  then have "snippet ?f = Some line"
    using assms(6) by (simp add: mk304_fields escape_nl_id)
  moreover have "?e = p + 11 + space_run src (p + 11) + word_run src (p + 11 + space_run src (p + 11))"
    using assms(3) by (simp add: kw304_end_def)
  with it have "finditer BREAKPOINT_RE src =
               [(p, p + 11 + space_run src (p + 11) + word_run src (p + 11 + space_run src (p + 11)))]"
    by (simp only:)
  ultimately show ?thesis by blast
qed

theorem rule304_trailing_token_witness:
  "(\<forall>q. kw304_at (''IF x.'' @ [NL] @ ''  BREAK-POINT ID.'' @ [NL] @ ''ENDIF.'') q = (q = 8))
   \<and> trailing_token (''IF x.'' @ [NL] @ ''  BREAK-POINT ID.'' @ [NL] @ ''ENDIF.'') 8
   \<and> on_line (split_nl (''IF x.'' @ [NL] @ ''  BREAK-POINT ID.'' @ [NL] @ ''ENDIF.'')) 8 2
   \<and> (\<exists>f. of_rule ''Rule304_BreakPointUsage''
             (findings_of (scan_unit (unit_of (''IF x.'' @ [NL] @ ''  BREAK-POINT ID.'' @ [NL] @ ''ENDIF.'')))) = [f]
          \<and> snippet f = Some ''  BREAK-POINT ID.''
          \<and> starting_line f = Some 102
          \<and> finditer BREAKPOINT_RE (''IF x.'' @ [NL] @ ''  BREAK-POINT ID.'' @ [NL] @ ''ENDIF.'')
              = [(8, 22)])"
proof -
  let ?s = "''IF x.'' @ [NL] @ ''  BREAK-POINT ID.'' @ [NL] @ ''ENDIF.''"
  have h1: "code (unit_of ?s) = Some ?s" by (simp add: unit_of_def)
  have h2: "\<forall>q. kw304_at ?s q = (q = 8)"
  proof (rule only_candidate)
    show "q \<in> set (letter_offsets (CHR ''B'') ?s 0)" if "kw304_at ?s q" for q
      using that by (intro kw304_text_candidates) (simp add: kw304_at_def)
    show "letter_offsets (CHR ''B'') ?s 0 = [8]"
      by (simp add: NL_def tolower_eq lower_code_def)
    show "kw304_at ?s 8"
      by (simp add: kw304_at_def kw304_text_def eval_defs)
  qed
  have h3: "trailing_token ?s 8" by (simp add: trailing_token_def eval_defs)
  have h4: "on_line (split_nl ?s) 8 2" by (simp add: NL_def)
  have h5: "?s = (''IF x.'' @ [NL]) @ ''  BREAK-POINT ID.'' @ ([NL] @ ''ENDIF.'')" by simp
  have h6: "NL \<notin> set ''  BREAK-POINT ID.''" by (simp add: NL_def)
  have h7: "''IF x.'' @ [NL] = [] \<or> last (''IF x.'' @ [NL]) = NL" by simp
  have h8: "[NL] @ ''ENDIF.'' = [] \<or> hd ([NL] @ ''ENDIF.'') = NL" by simp
  have h9: "length (''IF x.'' @ [NL]) \<le> 8" by simp
  have h10: "8 \<le> length (''IF x.'' @ [NL]) + length ''  BREAK-POINT ID.''" by simp
  have r: "8 + 11 + space_run ?s (8 + 11) + word_run ?s (8 + 11 + space_run ?s (8 + 11)) = 22"
    by (simp add: eval_defs)
  have sl: "start_line (unit_of ?s) + int 2 = 102" by (simp add: unit_of_def)
  note t = rule304_trailing_token [OF h1 h2 h3 h4 h5 h6 h7 h8 h9 h10, unfolded r sl]
  from h2 h3 h4 t show ?thesis by (intro conjI)
qed

text \<open>
  Claim C5. When the phrase of rule 303 stands at exactly one offset of the text and the
  keyword of rule 304 at exactly one, on two different lines, the scan gives exactly two
  findings: that of rule 303 first, that of rule 304 second, each with the starting
  line of its own offset.
\<close>

theorem both_rules_two_findings:
  assumes "code u = Some src"
    and "\<forall>q. phrase303_at src q = (q = p)"
    and "\<forall>q. kw304_at src q = (q = r)"
    and "on_line (split_nl src) p k" and "on_line (split_nl src) r m" and "k \<noteq> m"
  shows "\<exists>f g. findings (scan_unit u) = Some [f, g]
           \<and> issues_type f = Some ''Rule303_SetExtendedCheck''
           \<and> issues_type g = Some ''Rule304_BreakPointUsage''
           \<and> starting_line f = Some (start_line u + int k)
           \<and> starting_line g = Some (start_line u + int m)
           \<and> starting_line f \<noteq> starting_line g"
proof -
  let ?f = "mk303 u src (p, phrase303_last src p + 5)"
  let ?g = "mk304 u src (r, kw304_end src r)"
  from assms(1) have src: "code_or_empty u = src" by (rule code_or_empty_Some)
  have it3: "finditer SET_EXT_CHECK_RE src = [(p, phrase303_last src p + 5)]"
    using assms(2) by (rule finditer_303_unique)
  have it4: "finditer BREAKPOINT_RE src = [(r, kw304_end src r)]"
    using assms(3) by (rule finditer_304_unique)
  have fs: "findings_of (scan_unit u) = [?f, ?g]"
    by (simp only: findings_of_scan_unit src it3 it4) simp
  have a: "findings (scan_unit u) = Some [?f, ?g]"
    by (simp only: findings_scan_unit [of u] fs) simp
  from assms(2) have "phrase303_at src p" by simp
  then have "int (count_nl src p) + 1 = int k" using assms(4) by (rule line_of_303)
  then have b: "starting_line ?f = Some (start_line u + int k)"
    by (simp only: mk303_fields)
  from assms(3) have "kw304_at src r" by simp
  then have "int (count_nl src r) + 1 = int m" using assms(5) by (rule line_of_304)
  then have c: "starting_line ?g = Some (start_line u + int m)"
    by (simp only: mk304_fields)
  from b c assms(6) have d: "starting_line ?f \<noteq> starting_line ?g" by simp
  have e: "issues_type ?f = Some ''Rule303_SetExtendedCheck''"
    "issues_type ?g = Some ''Rule304_BreakPointUsage''"
    by (simp_all only: mk303_fields mk304_fields)
  from a b c d e show ?thesis by blast
qed

theorem both_rules_two_findings_witness:
  "(\<forall>q. phrase303_at (''SET EXTENDED CHECK OFF.'' @ [NL] @ ''BREAK-POINT.'') q = (q = 0))
   \<and> (\<forall>q. kw304_at (''SET EXTENDED CHECK OFF.'' @ [NL] @ ''BREAK-POINT.'') q = (q = 24))
   \<and> on_line (split_nl (''SET EXTENDED CHECK OFF.'' @ [NL] @ ''BREAK-POINT.'')) 0 1
   \<and> on_line (split_nl (''SET EXTENDED CHECK OFF.'' @ [NL] @ ''BREAK-POINT.'')) 24 2
   \<and> (\<exists>f g. findings (scan_unit (unit_of (''SET EXTENDED CHECK OFF.'' @ [NL] @ ''BREAK-POINT.'')))
               = Some [f, g]
          \<and> issues_type f = Some ''Rule303_SetExtendedCheck''
          \<and> issues_type g = Some ''Rule304_BreakPointUsage''
          \<and> starting_line f = Some 101 \<and> starting_line g = Some 102
          \<and> starting_line f \<noteq> starting_line g)"
proof -
  let ?s = "''SET EXTENDED CHECK OFF.'' @ [NL] @ ''BREAK-POINT.''"
  have h1: "code (unit_of ?s) = Some ?s" by (simp add: unit_of_def)
  have h2: "\<forall>q. phrase303_at ?s q = (q = 0)"
  proof (rule only_candidate)
    show "q \<in> set (letter_offsets (CHR ''S'') ?s 0)" if "phrase303_at ?s q" for q
      using that by (intro phrase303_text_candidates) (simp add: phrase303_at_def)
    show "letter_offsets (CHR ''S'') ?s 0 = [0]"
      by (simp add: NL_def tolower_eq lower_code_def)
    show "phrase303_at ?s 0"
      by (simp add: phrase303_at_def phrase303_text_def phrase303_mid_def phrase303_last_def
          eval_defs)
  qed
  have h3: "\<forall>q. kw304_at ?s q = (q = 24)"
  proof (rule only_candidate)
    show "q \<in> set (letter_offsets (CHR ''B'') ?s 0)" if "kw304_at ?s q" for q
      using that by (intro kw304_text_candidates) (simp add: kw304_at_def)
    show "letter_offsets (CHR ''B'') ?s 0 = [24]"
      by (simp add: NL_def tolower_eq lower_code_def)
    show "kw304_at ?s 24"
      by (simp add: kw304_at_def kw304_text_def eval_defs)
  qed
  have h4: "on_line (split_nl ?s) 0 1" by (simp add: NL_def)
  have h5: "on_line (split_nl ?s) 24 2" by (simp add: NL_def)
  have h6: "(1::nat) \<noteq> 2" by simp
  have sl: "start_line (unit_of ?s) + int 1 = 101" "start_line (unit_of ?s) + int 2 = 102"
    by (simp_all add: unit_of_def)
  note t = both_rules_two_findings [OF h1 h2 h3 h4 h5 h6, unfolded sl]
  from h2 h3 h4 h5 t show ?thesis by (intro conjI)
qed

text \<open>
  Claim C4. A keyword that stands in the text only as part of a longer identifier, with
  a word character right before or right after it, gives no finding of its rule: when
  every place where \<^verbatim>\<open>BREAK-POINT\<close> stands is of that kind the scan has no finding of
  rule 304, and likewise for the phrase of rule 303; and at no such place does the
  pattern match.
\<close>

theorem embedded_keyword_no_finding:
  assumes "code u = Some src"
  shows "((\<forall>p. kw304_text src p \<longrightarrow> embedded src p (p + 11))
            \<longrightarrow> of_rule ''Rule304_BreakPointUsage'' (findings_of (scan_unit u)) = [])
       \<and> ((\<forall>p. phrase303_text src p \<longrightarrow> embedded src p (phrase303_last src p + 5))
            \<longrightarrow> of_rule ''Rule303_SetExtendedCheck'' (findings_of (scan_unit u)) = [])
       \<and> (kw304_text src p \<and> embedded src p (p + 11)
            \<longrightarrow> match_at BREAKPOINT_RE src p = None)
       \<and> (phrase303_text src p \<and> embedded src p (phrase303_last src p + 5)
            \<longrightarrow> match_at SET_EXT_CHECK_RE src p = None)"
proof (intro conjI impI)
  from assms have src: "code_or_empty u = src" by (rule code_or_empty_Some)
  {
    assume "\<forall>p. kw304_text src p \<longrightarrow> embedded src p (p + 11)"
    then have "finditer BREAKPOINT_RE src = []" by (rule no_304_when_embedded)
    then show "of_rule ''Rule304_BreakPointUsage'' (findings_of (scan_unit u)) = []"
      by (simp only: findings_of_scan_unit src of_rule_304) simp
  }
  {
    assume "\<forall>p. phrase303_text src p \<longrightarrow> embedded src p (phrase303_last src p + 5)"
    then have "finditer SET_EXT_CHECK_RE src = []" by (rule no_303_when_embedded)
    then show "of_rule ''Rule303_SetExtendedCheck'' (findings_of (scan_unit u)) = []"
      by (simp only: findings_of_scan_unit src of_rule_303) simp
  }
  {
    assume "kw304_text src p \<and> embedded src p (p + 11)"
    then show "match_at BREAKPOINT_RE src p = None"
      by (simp add: match_304 kw304_at_def)
  }
  {
    assume "phrase303_text src p \<and> embedded src p (phrase303_last src p + 5)"
    then show "match_at SET_EXT_CHECK_RE src p = None"
      by (simp add: match_303 phrase303_at_def)
  }
qed

theorem embedded_keyword_no_finding_witness:
  "kw304_text ''XBREAK-POINTX'' 1 \<and> embedded ''XBREAK-POINTX'' 1 (1 + 11)
   \<and> match_at BREAKPOINT_RE ''XBREAK-POINTX'' 1 = None
   \<and> of_rule ''Rule304_BreakPointUsage'' (findings_of (scan_unit (unit_of ''XBREAK-POINTX''))) = []
   \<and> phrase303_text ''XSET EXTENDED CHECK_NEW'' 1
   \<and> embedded ''XSET EXTENDED CHECK_NEW'' 1 (phrase303_last ''XSET EXTENDED CHECK_NEW'' 1 + 5)
   \<and> match_at SET_EXT_CHECK_RE ''XSET EXTENDED CHECK_NEW'' 1 = None
   \<and> of_rule ''Rule303_SetExtendedCheck''
        (findings_of (scan_unit (unit_of ''XSET EXTENDED CHECK_NEW''))) = []"
proof -
  let ?a = "''XBREAK-POINTX''" and ?b = "''XSET EXTENDED CHECK_NEW''"
  have a1: "code (unit_of ?a) = Some ?a" and b1: "code (unit_of ?b) = Some ?b"
    by (simp_all add: unit_of_def)
  have a2: "kw304_text ?a 1" by (simp add: kw304_text_def eval_defs)
  have a3: "embedded ?a 1 (1 + 11)" by (simp add: eval_defs)
  have a4: "\<forall>p. kw304_text ?a p \<longrightarrow> embedded ?a p (p + 11)"
  proof (rule all_candidates)
    show "q \<in> set (letter_offsets (CHR ''B'') ?a 0)" if "kw304_text ?a q" for q
      using that by (rule kw304_text_candidates)
    show "letter_offsets (CHR ''B'') ?a 0 = [1]"
      by (simp add: tolower_eq lower_code_def)
    show "embedded ?a 1 (1 + 11)" by (rule a3)
  qed
  have b2: "phrase303_text ?b 1"
    by (simp add: phrase303_text_def phrase303_mid_def phrase303_last_def eval_defs)
  have b3: "embedded ?b 1 (phrase303_last ?b 1 + 5)"
    by (simp add: phrase303_mid_def phrase303_last_def eval_defs)
  have b4: "\<forall>p. phrase303_text ?b p \<longrightarrow> embedded ?b p (phrase303_last ?b p + 5)"
  proof (rule all_candidates)
    show "q \<in> set (letter_offsets (CHR ''S'') ?b 0)" if "phrase303_text ?b q" for q
      using that by (rule phrase303_text_candidates)
    show "letter_offsets (CHR ''S'') ?b 0 = [1]"
      by (simp add: tolower_eq lower_code_def)
    show "embedded ?b 1 (phrase303_last ?b 1 + 5)" by (rule b3)
  qed
  note ta = embedded_keyword_no_finding [OF a1, of 1]
  note tb = embedded_keyword_no_finding [OF b1, of 1]
  note r1 = ta [THEN conjunct2, THEN conjunct2, THEN conjunct1, THEN mp, OF conjI [OF a2 a3]]
  note r2 = ta [THEN conjunct1, THEN mp, OF a4]
  note r3 = tb [THEN conjunct2, THEN conjunct2, THEN conjunct2, THEN mp, OF conjI [OF b2 b3]]
  note r4 = tb [THEN conjunct2, THEN conjunct1, THEN mp, OF b4]
  from a2 a3 r1 r2 b2 b3 r3 r4 show ?thesis by (intro conjI)
qed

text \<open>
  The hyphen is not a word character, so the keyword joined to a name by a hyphen
  stands as a word of its own, and the pattern matches it.
\<close>

lemma hyphen_joined_keyword_matches:
  "kw304_at ''X-BREAK-POINT'' 2 \<and> match_at BREAKPOINT_RE ''X-BREAK-POINT'' 2 = Some 13"
proof -
  have a: "kw304_at ''X-BREAK-POINT'' 2"
    by (simp add: kw304_at_def kw304_text_def eval_defs)
  have "kw304_end ''X-BREAK-POINT'' 2 = 13"
    by (simp add: kw304_end_def trailing_token_def eval_defs)
  with a show ?thesis by (simp add: match_304)
qed

text \<open>
  Claim C6. The scan is pure and deterministic. On a store of unit objects, a scan of
  the unit at address \<open>a\<close> allocates one new object for its result and changes no
  object that was there: the input unit keeps all its fields, its earlier findings
  among them. A second scan of the same address, run on the store the first one left,
  gives a result equal to the first, so the findings are the same, in the same order.
\<close>

theorem scan_unit_pure:
  assumes "a < length heap"
  shows "\<exists>out heap' out2 heap''.
           scan_unit_obj heap a = Some (out, heap')
         \<and> scan_unit_obj heap' a = Some (out2, heap'')
         \<and> heap'' ! out2 = heap' ! out
         \<and> findings (heap'' ! out2) = findings (heap' ! out)
         \<and> heap' ! out = scan_unit (heap ! a)
         \<and> take (length heap) heap' = heap
         \<and> take (length heap') heap'' = heap'
         \<and> heap' ! a = heap ! a \<and> heap'' ! a = heap ! a
         \<and> out \<noteq> a \<and> out2 \<noteq> a"
proof -
  let ?h1 = "heap @ [scan_unit (heap ! a)]"
  let ?h2 = "?h1 @ [scan_unit (?h1 ! a)]"
  from assms have a1: "a < length ?h1" by simp
  have s1: "scan_unit_obj heap a = Some (length heap, ?h1)"
    using assms by (rule scan_unit_obj_eq)
  have s2: "scan_unit_obj ?h1 a = Some (length ?h1, ?h2)"
    using a1 by (rule scan_unit_obj_eq)
  have same: "?h1 ! a = heap ! a" using assms by (simp add: nth_append)
  have same2: "?h2 ! a = heap ! a" using assms by (simp add: nth_append)
  have "?h2 ! length ?h1 = ?h1 ! length heap"
    using assms by (simp add: nth_append)
  moreover have "?h1 ! length heap = scan_unit (heap ! a)" by simp
  moreover have "take (length heap) ?h1 = heap" by simp
  moreover have "take (length ?h1) ?h2 = ?h1" by simp
  moreover have "length heap \<noteq> a" "length ?h1 \<noteq> a" using assms by simp_all
  ultimately show ?thesis using s1 s2 same same2 by (metis (no_types))
qed

theorem scan_unit_pure_witness:
  "0 < length [(unit_of ''BREAK-POINT.'')\<lparr> findings := Some [] \<rparr>]
   \<and> (\<exists>out heap' out2 heap''.
           scan_unit_obj [(unit_of ''BREAK-POINT.'')\<lparr> findings := Some [] \<rparr>] 0 = Some (out, heap')
         \<and> scan_unit_obj heap' 0 = Some (out2, heap'')
         \<and> heap'' ! out2 = heap' ! out
         \<and> findings (heap'' ! out2) = findings (heap' ! out)
         \<and> heap' ! out = scan_unit ([(unit_of ''BREAK-POINT.'')\<lparr> findings := Some [] \<rparr>] ! 0)
         \<and> take (length [(unit_of ''BREAK-POINT.'')\<lparr> findings := Some [] \<rparr>]) heap'
             = [(unit_of ''BREAK-POINT.'')\<lparr> findings := Some [] \<rparr>]
         \<and> take (length heap') heap'' = heap'
         \<and> heap' ! 0 = [(unit_of ''BREAK-POINT.'')\<lparr> findings := Some [] \<rparr>] ! 0
         \<and> heap'' ! 0 = [(unit_of ''BREAK-POINT.'')\<lparr> findings := Some [] \<rparr>] ! 0
         \<and> out \<noteq> 0 \<and> out2 \<noteq> 0)"
proof -
  have h: "0 < length [(unit_of ''BREAK-POINT.'')\<lparr> findings := Some [] \<rparr>]" by simp
  from h scan_unit_pure [OF h] show ?thesis by (intro conjI)
qed

text \<open>
  Claim C7. A unit whose text is empty or absent is scanned to a unit without findings,
  and so is a unit whose text is white space only. For every unit, whatever its text,
  the scan gives a unit: the input with its \<open>findings\<close> replaced, by no findings or by
  a list that is not empty; on a store, the scan of any address in use returns. (No
  operation of \<^verbatim>\<open>scan_unit\<close> can raise: the functions of the model are total, with
  their termination proved.)
\<close>

theorem scan_unit_total:
  "(code u = None \<or> code u = Some [] \<longrightarrow> findings (scan_unit u) = None)
   \<and> ((\<forall>c \<in> set (code_or_empty u). is_space c) \<longrightarrow> findings (scan_unit u) = None)
   \<and> (\<exists>fs. scan_unit u = u\<lparr> findings := fs \<rparr> \<and> fs \<noteq> Some [])
   \<and> (a < length heap \<longrightarrow> (\<exists>out heap'. scan_unit_obj heap a = Some (out, heap')))"
proof (intro conjI impI)
  assume "code u = None \<or> code u = Some []"
  then have e: "code_or_empty u = []" by (auto simp: code_or_empty_def)
  have "finditer SET_EXT_CHECK_RE [] = []"
    by (rule finditer_303_none) (simp add: phrase303_at_def phrase303_text_def ci_match_def)
  moreover have "finditer BREAKPOINT_RE [] = []"
    by (rule finditer_304_none) (simp add: kw304_at_def kw304_text_def ci_match_def)
  ultimately show "findings (scan_unit u) = None"
    by (simp add: findings_None_iff e)
next
  assume sp: "\<forall>c \<in> set (code_or_empty u). is_space c"
  have "finditer SET_EXT_CHECK_RE (code_or_empty u) = []"
    using sp by (intro finditer_303_none no_match_in_spaces_303)
  moreover have "finditer BREAKPOINT_RE (code_or_empty u) = []"
    using sp by (intro finditer_304_none no_match_in_spaces_304)
  ultimately show "findings (scan_unit u) = None"
    by (simp add: findings_None_iff)
next
  show "\<exists>fs. scan_unit u = u\<lparr> findings := fs \<rparr> \<and> fs \<noteq> Some []"
    by (auto simp: scan_unit_def Let_def)
next
  assume "a < length heap"
  then show "\<exists>out heap'. scan_unit_obj heap a = Some (out, heap')"
    by (simp add: scan_unit_obj_eq)
qed

theorem scan_unit_total_witness:
  "findings (scan_unit (unit_of [])) = None
   \<and> findings (scan_unit ((unit_of [])\<lparr> code := None \<rparr>)) = None
   \<and> findings (scan_unit (unit_of ''   '')) = None
   \<and> (\<exists>fs. scan_unit (unit_of []) = (unit_of [])\<lparr> findings := fs \<rparr> \<and> fs \<noteq> Some [])
   \<and> (\<exists>out heap'. scan_unit_obj [unit_of []] 0 = Some (out, heap'))"
proof -
  have h1: "code (unit_of []) = None \<or> code (unit_of []) = Some []"
    by (simp add: unit_of_def)
  have h2: "code ((unit_of [])\<lparr> code := None \<rparr>) = None
      \<or> code ((unit_of [])\<lparr> code := None \<rparr>) = Some []"
    by simp
  have h3: "\<forall>c \<in> set (code_or_empty (unit_of ''   '')). is_space c"
    by (simp add: unit_of_def code_or_empty_def is_space_def)
  have h4: "(0::nat) < length [unit_of []]" by simp
  note t1 = scan_unit_total [of "unit_of []" 0 "[unit_of []]"]
  note t2 = scan_unit_total [of "(unit_of [])\<lparr> code := None \<rparr>" 0 "[unit_of []]"]
  note t3 = scan_unit_total [of "unit_of ''   ''" 0 "[unit_of []]"]
  note r1 = t1 [THEN conjunct1, THEN mp, OF h1]
  note r2 = t2 [THEN conjunct1, THEN mp, OF h2]
  note r3 = t3 [THEN conjunct2, THEN conjunct1, THEN mp, OF h3]
  note r4 = t1 [THEN conjunct2, THEN conjunct2, THEN conjunct1]
  note r5 = t1 [THEN conjunct2, THEN conjunct2, THEN conjunct2, THEN mp, OF h4]
  from r1 r2 r3 r4 r5 show ?thesis by (intro conjI)
qed

text \<open>
  Claim C8. The batch endpoint scans every unit of its input and returns, in the order
  of the input, exactly the scanned units that have findings; a unit without findings
  is left out. The single endpoint returns the scanned unit as it is, without findings
  when there are none.
\<close>

theorem scan_array_filter:
  "scan_array units =
     filter (\<lambda>x. findings x \<noteq> None \<and> findings x \<noteq> Some []) (map scan_unit units)
   \<and> scan_single u = scan_unit u
   \<and> (findings (scan_unit u) = None \<longrightarrow>
        scan_array [u] = [] \<and> findings (scan_single u) = None \<and> scan_single u = u\<lparr> findings := None \<rparr>)
   \<and> (findings (scan_unit u) \<noteq> None \<longrightarrow> scan_array [u] = [scan_single u])"
proof -
  have t: "truthy fs = (fs \<noteq> None \<and> fs \<noteq> Some [])" for fs
    by (cases fs) (simp_all add: truthy_def)
  have a: "scan_array units =
     filter (\<lambda>x. findings x \<noteq> None \<and> findings x \<noteq> Some []) (map scan_unit units)" for units
  proof -
    have "scan_array units = filter (\<lambda>x. truthy (findings x)) (map scan_unit units)"
      by (simp only: scan_array_def scan_array_fold append_Nil)
    then show ?thesis by (simp only: t)
  qed
  have ne: "findings (scan_unit u) \<noteq> Some []"
    by (simp add: scan_unit_def Let_def)
  have b: "scan_unit u = u\<lparr> findings := findings (scan_unit u) \<rparr>"
    by (simp add: scan_unit_def Let_def)
  show ?thesis
  proof (intro conjI impI)
    show "scan_array units =
     filter (\<lambda>x. findings x \<noteq> None \<and> findings x \<noteq> Some []) (map scan_unit units)"
      by (rule a)
    show "scan_single u = scan_unit u" by (simp add: scan_single_def)
    show "scan_array [u] = []" if "findings (scan_unit u) = None"
      using that by (simp add: a)
    show "findings (scan_single u) = None" if "findings (scan_unit u) = None"
      using that by (simp add: scan_single_def)
    show "scan_single u = u\<lparr> findings := None \<rparr>" if "findings (scan_unit u) = None"
      using that b by (simp add: scan_single_def)
    show "scan_array [u] = [scan_single u]" if "findings (scan_unit u) \<noteq> None"
      using that ne by (simp add: a scan_single_def)
  qed
qed

theorem scan_array_filter_witness:
  "findings (scan_unit (unit_of ''x.'')) = None
   \<and> scan_array [unit_of ''x.''] = []
   \<and> findings (scan_single (unit_of ''x.'')) = None
   \<and> scan_single (unit_of ''x.'') = (unit_of ''x.'')\<lparr> findings := None \<rparr>
   \<and> findings (scan_unit (unit_of ''BREAK-POINT.'')) \<noteq> None
   \<and> scan_array [unit_of ''BREAK-POINT.''] = [scan_single (unit_of ''BREAK-POINT.'')]
   \<and> scan_array [unit_of ''x.'', unit_of ''BREAK-POINT.'', unit_of ''x.'']
       = [scan_unit (unit_of ''BREAK-POINT.'')]"
proof -
  let ?x = "unit_of ''x.''" and ?b = "unit_of ''BREAK-POINT.''"
  have cx: "code_or_empty ?x = ''x.''" and cb: "code_or_empty ?b = ''BREAK-POINT.''"
    by (simp_all add: unit_of_def code_or_empty_def)
  have "finditer SET_EXT_CHECK_RE ''x.'' = []"
    by (rule no_candidates_303) (simp add: tolower_eq lower_code_def)
  moreover have "finditer BREAKPOINT_RE ''x.'' = []"
    by (rule no_candidates_304) (simp add: tolower_eq lower_code_def)
  ultimately have x: "findings (scan_unit ?x) = None"
    by (simp only: findings_None_iff cx)
  have "\<forall>q. kw304_at ''BREAK-POINT.'' q = (q = 0)"
  proof (rule only_candidate)
    show "q \<in> set (letter_offsets (CHR ''B'') ''BREAK-POINT.'' 0)"
      if "kw304_at ''BREAK-POINT.'' q" for q
      using that by (intro kw304_text_candidates) (simp add: kw304_at_def)
    show "letter_offsets (CHR ''B'') ''BREAK-POINT.'' 0 = [0]"
      by (simp add: tolower_eq lower_code_def)
    show "kw304_at ''BREAK-POINT.'' 0"
      by (simp add: kw304_at_def kw304_text_def eval_defs)
  qed
  then have "finditer BREAKPOINT_RE ''BREAK-POINT.'' = [(0, kw304_end ''BREAK-POINT.'' 0)]"
    by (rule finditer_304_unique)
  then have "finditer BREAKPOINT_RE ''BREAK-POINT.'' \<noteq> []"
    by (simp only: list.distinct not_False_eq_True)
  then have b: "findings (scan_unit ?b) \<noteq> None"
    by (simp only: findings_None_iff cb) simp
  note t1 = scan_array_filter [of "[?x]" ?x]
  note t2 = scan_array_filter [of "[?x, ?b, ?x]" ?b]
  note r1 = t1 [THEN conjunct2, THEN conjunct2, THEN conjunct1, THEN mp, OF x]
  note r2 = t2 [THEN conjunct2, THEN conjunct2, THEN conjunct2, THEN mp, OF b]
  have "scan_array [?x, ?b, ?x] = [scan_unit ?b]"
    using x b t2 [THEN conjunct1] by (simp add: findings_not_empty_list)
  with x b r1 r2 show ?thesis by (intro conjI) simp_all
qed

text \<open>
  Claim C9. The findings of the scanned unit do not depend on the findings the input
  unit came with: they are the same whatever the input's \<open>findings\<close> field holds. They
  depend only on the text of the unit and on the fields that go into each finding
  (program, include, type, block name, and the starting line the line numbers are
  counted from).
\<close>

theorem findings_replaced:
  "findings (scan_unit (u\<lparr> findings := old \<rparr>)) = findings (scan_unit u)
   \<and> (pgm_name u = pgm_name v \<and> inc_name u = inc_name v \<and> type u = type v \<and> name u = name v
        \<and> start_line u = start_line v \<and> code u = code v
      \<longrightarrow> findings (scan_unit u) = findings (scan_unit v))"
proof -
  have eq: "findings (scan_unit u) = findings (scan_unit v)"
    if "pgm_name u = pgm_name v" "inc_name u = inc_name v" "type u = type v" "name u = name v"
      "start_line u = start_line v" "code u = code v" for u v
  proof -
    from that(6) have c: "code_or_empty u = code_or_empty v"
      by (simp add: code_or_empty_def)
    have m: "make_finding u = make_finding v"
      using that(1-5) by (intro ext) (simp add: make_finding_def)
    show ?thesis
      by (simp add: scan_unit_def Let_def rule303_loop_def rule304_loop_def c m)
  qed
  have "findings (scan_unit (u\<lparr> findings := old \<rparr>)) = findings (scan_unit u)"
    by (rule eq) simp_all
  moreover have "pgm_name u = pgm_name v \<and> inc_name u = inc_name v \<and> type u = type v
        \<and> name u = name v \<and> start_line u = start_line v \<and> code u = code v
      \<longrightarrow> findings (scan_unit u) = findings (scan_unit v)"
    using eq by blast
  ultimately show ?thesis by (rule conjI)
qed

theorem findings_replaced_witness:
  "findings (scan_unit ((unit_of ''BREAK-POINT.'')\<lparr> findings := Some [\<lparr> prog_name = None,
       incl_name = None, types = None, blockname = None, starting_line = Some 1,
       ending_line = Some 1, issues_type = Some ''Stale'', severity = None, message = None,
       suggestion = None, snippet = None \<rparr>] \<rparr>))
     = findings (scan_unit (unit_of ''BREAK-POINT.''))
   \<and> findings (scan_unit ((unit_of ''BREAK-POINT.'')\<lparr> end_line := 7, findings := Some [] \<rparr>))
     = findings (scan_unit (unit_of ''BREAK-POINT.''))"
proof -
  let ?u = "unit_of ''BREAK-POINT.''"
  let ?v = "?u\<lparr> end_line := 7, findings := Some [] \<rparr>"
  have h: "pgm_name ?v = pgm_name ?u \<and> inc_name ?v = inc_name ?u \<and> type ?v = type ?u
      \<and> name ?v = name ?u \<and> start_line ?v = start_line ?u \<and> code ?v = code ?u"
    by simp
  note r1 = findings_replaced [where u = ?u and v = ?u, THEN conjunct1]
  note r2 = findings_replaced [where u = ?v and v = ?u, THEN conjunct2, THEN mp, OF h]
  from r1 r2 show ?thesis by (intro conjI)
qed

text \<open>
  Claim C10. Only the line feed is a line break. For every unit and every finding of
  its scan there is a match of one of the two patterns, starting at an offset \<open>a\<close>,
  such that the snippet of the finding is the physical line of \<open>a\<close>, bounded by line
  feeds and by nothing else, and its starting line is \<open>start_line\<close> plus one plus the
  number of line feeds before that line; no other character of the text counts or
  bounds. So in a text without line feeds every finding is on line \<open>start_line + 1\<close>
  with the whole text as snippet; a text whose lines are separated by carriage returns
  has its finding on line \<open>start_line + 1\<close> with the carriage returns in the snippet as
  they are; and in a text whose lines end with carriage return and line feed the
  statement of the second line is on line \<open>start_line + 2\<close>, with a snippet that ends
  with the carriage return. The escaping of the snippet changes each line feed to a
  backslash and the letter n, and no other character.
\<close>

theorem only_line_feed_breaks:
  "(code u = Some src \<longrightarrow>
      (\<forall>f \<in> set (findings_of (scan_unit u)).
         \<exists>a \<in> fst ` set (finditer SET_EXT_CHECK_RE src @ finditer BREAKPOINT_RE src).
           (\<exists>pre line post. physical_line src a pre line post)
         \<and> (\<forall>pre line post. physical_line src a pre line post \<longrightarrow>
                snippet f = Some line
              \<and> starting_line f
                  = Some (start_line u + 1 + int (length (filter (\<lambda>c. c = NL) pre))))))
   \<and> (NL \<notin> set src \<and> code u = Some src \<longrightarrow>
      (\<forall>f \<in> set (findings_of (scan_unit u)).
         starting_line f = Some (start_line u + 1) \<and> snippet f = Some src))
   \<and> (code u = Some (''DATA x.'' @ [CR] @ ''BREAK-POINT.'' @ [CR]) \<longrightarrow>
        (\<exists>f. findings (scan_unit u) = Some [f]
           \<and> starting_line f = Some (start_line u + 1)
           \<and> snippet f = Some (''DATA x.'' @ [CR] @ ''BREAK-POINT.'' @ [CR])))
   \<and> (code u = Some (''DATA x.'' @ [CR, NL] @ ''BREAK-POINT.'' @ [CR, NL]) \<longrightarrow>
        (\<exists>f. findings (scan_unit u) = Some [f]
           \<and> starting_line f = Some (start_line u + 2)
           \<and> snippet f = Some (''BREAK-POINT.'' @ [CR])))
   \<and> escape_nl xs = concat (map (\<lambda>c. if c = NL then [BACKSLASH, CHR ''n''] else [c]) xs)
   \<and> (c \<noteq> NL \<longrightarrow> escape_nl [c] = [c])
   \<and> escape_nl [NL] = [BACKSLASH, CHR ''n'']
   \<and> escape_nl [CR] = [CR]"
proof (intro conjI impI)
  show "\<forall>f \<in> set (findings_of (scan_unit u)).
         \<exists>a \<in> fst ` set (finditer SET_EXT_CHECK_RE src @ finditer BREAKPOINT_RE src).
           (\<exists>pre line post. physical_line src a pre line post)
         \<and> (\<forall>pre line post. physical_line src a pre line post \<longrightarrow>
                snippet f = Some line
              \<and> starting_line f
                  = Some (start_line u + 1 + int (length (filter (\<lambda>c. c = NL) pre))))"
    if "code u = Some src"
    using that by (intro ballI finding_physical_line)
next
  show "\<forall>f \<in> set (findings_of (scan_unit u)).
         starting_line f = Some (start_line u + 1) \<and> snippet f = Some src"
    if "NL \<notin> set src \<and> code u = Some src"
    using that finding_without_NL by blast
next
  let ?s = "''DATA x.'' @ [CR] @ ''BREAK-POINT.'' @ [CR]"
  assume c: "code u = Some ?s"
  then have src: "code_or_empty u = ?s" by (rule code_or_empty_Some)
  have nl: "NL \<notin> set ?s" by (simp add: NL_def CR_def)
  have f3: "finditer SET_EXT_CHECK_RE ?s = []"
    by (rule no_candidates_303) (simp add: CR_def tolower_eq lower_code_def)
  have "\<forall>q. kw304_at ?s q = (q = 8)"
  proof (rule only_candidate)
    show "q \<in> set (letter_offsets (CHR ''B'') ?s 0)" if "kw304_at ?s q" for q
      using that by (intro kw304_text_candidates) (simp add: kw304_at_def)
    show "letter_offsets (CHR ''B'') ?s 0 = [8]"
      by (simp add: CR_def tolower_eq lower_code_def)
    show "kw304_at ?s 8"
      by (simp add: kw304_at_def kw304_text_def eval_defs)
  qed
  then have f4: "finditer BREAKPOINT_RE ?s = [(8, kw304_end ?s 8)]"
    by (rule finditer_304_unique)
  let ?f = "mk304 u ?s (8, kw304_end ?s 8)"
  have fs: "findings_of (scan_unit u) = [?f]"
    by (simp only: findings_of_scan_unit src f3 f4) simp
  have a: "findings (scan_unit u) = Some [?f]"
    by (simp only: findings_scan_unit [of u] fs) simp
  have "?f \<in> set (findings_of (scan_unit u))"
    by (simp only: fs) simp
  with nl c have "starting_line ?f = Some (start_line u + 1) \<and> snippet ?f = Some ?s"
    by (rule finding_without_NL)
  with a show "\<exists>f. findings (scan_unit u) = Some [f]
           \<and> starting_line f = Some (start_line u + 1) \<and> snippet f = Some ?s"
    by blast
next
  let ?s = "''DATA x.'' @ [CR, NL] @ ''BREAK-POINT.'' @ [CR, NL]"
  assume c: "code u = Some ?s"
  then have src: "code_or_empty u = ?s" by (rule code_or_empty_Some)
  have f3: "finditer SET_EXT_CHECK_RE ?s = []"
    by (rule no_candidates_303) (simp add: CR_def NL_def tolower_eq lower_code_def)
  have "\<forall>q. kw304_at ?s q = (q = 9)"
  proof (rule only_candidate)
    show "q \<in> set (letter_offsets (CHR ''B'') ?s 0)" if "kw304_at ?s q" for q
      using that by (intro kw304_text_candidates) (simp add: kw304_at_def)
    show "letter_offsets (CHR ''B'') ?s 0 = [9]"
      by (simp add: CR_def NL_def tolower_eq lower_code_def)
    show "kw304_at ?s 9"
      by (simp add: kw304_at_def kw304_text_def eval_defs)
  qed
  then have f4: "finditer BREAKPOINT_RE ?s = [(9, kw304_end ?s 9)]"
    by (rule finditer_304_unique)
  let ?f = "mk304 u ?s (9, kw304_end ?s 9)"
  have fs: "findings_of (scan_unit u) = [?f]"
    by (simp only: findings_of_scan_unit src f3 f4) simp
  have a: "findings (scan_unit u) = Some [?f]"
    by (simp only: findings_scan_unit [of u] fs) simp
  have cnt: "count_nl ?s 9 = 1"
    by (simp add: count_nl_def NL_def CR_def)
  have b: "starting_line ?f = Some (start_line u + 2)"
    by (simp only: mk304_fields cnt) simp
  have "extract_line ((''DATA x.'' @ [CR, NL]) @ (''BREAK-POINT.'' @ [CR]) @ [NL]) 9
      = ''BREAK-POINT.'' @ [CR]"
    by (rule extract_line_physical) (simp_all add: NL_def CR_def)
  then have x: "extract_line ?s 9 = ''BREAK-POINT.'' @ [CR]" by simp
  have e: "escape_nl (''BREAK-POINT.'' @ [CR]) = ''BREAK-POINT.'' @ [CR]"
    by (rule escape_nl_id) (simp add: NL_def CR_def)
  have d: "snippet ?f = Some (''BREAK-POINT.'' @ [CR])"
    by (simp only: mk304_fields x e)
  from a b d show "\<exists>f. findings (scan_unit u) = Some [f]
           \<and> starting_line f = Some (start_line u + 2)
           \<and> snippet f = Some (''BREAK-POINT.'' @ [CR])"
    by blast
next
  show "escape_nl xs = concat (map (\<lambda>c. if c = NL then [BACKSLASH, CHR ''n''] else [c]) xs)"
    by (rule escape_nl_concat)
  show "escape_nl [c] = [c]" if "c \<noteq> NL" using that by simp
  show "escape_nl [NL] = [BACKSLASH, CHR ''n'']" by simp
  show "escape_nl [CR] = [CR]" by (simp add: CR_def NL_def)
qed

theorem only_line_feed_breaks_witness:
  "NL \<notin> set (''DATA x.'' @ [CR] @ ''BREAK-POINT.'' @ [CR])
   \<and> (\<exists>f. findings (scan_unit (unit_of (''DATA x.'' @ [CR] @ ''BREAK-POINT.'' @ [CR]))) = Some [f]
          \<and> starting_line f = Some 101
          \<and> snippet f = Some (''DATA x.'' @ [CR] @ ''BREAK-POINT.'' @ [CR]))
   \<and> CR \<in> set (''DATA x.'' @ [CR] @ ''BREAK-POINT.'' @ [CR])
   \<and> (\<exists>f. findings (scan_unit (unit_of (''DATA x.'' @ [CR, NL] @ ''BREAK-POINT.'' @ [CR, NL])))
            = Some [f]
          \<and> starting_line f = Some 102
          \<and> snippet f = Some (''BREAK-POINT.'' @ [CR]))
   \<and> escape_nl [CR] = [CR]"
proof -
  let ?s = "''DATA x.'' @ [CR] @ ''BREAK-POINT.'' @ [CR]"
  let ?t = "''DATA x.'' @ [CR, NL] @ ''BREAK-POINT.'' @ [CR, NL]"
  have h1: "code (unit_of ?s) = Some ?s" by (simp add: unit_of_def)
  have k1: "code (unit_of ?t) = Some ?t" by (simp add: unit_of_def)
  have h2: "NL \<notin> set ?s" by (simp add: NL_def CR_def)
  have h3: "CR \<in> set ?s" by simp
  have sl: "start_line (unit_of ?s) + 1 = 101" by (simp add: unit_of_def)
  have sk: "start_line (unit_of ?t) + 2 = 102" by (simp add: unit_of_def)
  note t = only_line_feed_breaks [where src = ?s and u = "unit_of ?s" and c = CR and xs = "[]"]
  note v = only_line_feed_breaks [where src = ?t and u = "unit_of ?t" and c = CR and xs = "[]"]
  note r1 = t [THEN conjunct2, THEN conjunct2, THEN conjunct1, THEN mp, OF h1, unfolded sl]
  note r2 = v [THEN conjunct2, THEN conjunct2, THEN conjunct2, THEN conjunct1, THEN mp, OF k1,
      unfolded sk]
  note r3 = t [THEN conjunct2, THEN conjunct2, THEN conjunct2, THEN conjunct2, THEN conjunct2,
      THEN conjunct2, THEN conjunct2]
  from h2 r1 h3 r2 r3 show ?thesis by (intro conjI)
qed

end
